theory Spec2Isabelle
  imports Main "HOL-Library.Word" "HOL-Library.Finite_Map"
begin

section \<open>The zagro event emitter (zagro.go)\<close>

text \<open>
  The Go package has one type, \<^verbatim>\<open>Zagro\<close>: a map from event names to slices of
  listeners, a counter \<^verbatim>\<open>nextID\<close> and the bound \<^verbatim>\<open>maxListeners\<close>. The methods
  are modelled as functions that take the emitter and return it updated. The mutex is
  not modelled: every call below runs to its end before the next one starts, as it
  does on a single goroutine.

  Go's \<^verbatim>\<open>int\<close> is a machine integer of 32 or 64 bits, depending on the platform. The
  types below take the type of listener ids as a parameter, and the functions use it
  at \<open>'w word\<close>: \<^verbatim>\<open>e.nextID++\<close> wraps around, \<^verbatim>\<open>l.id == id\<close> is equality of words
  and \<^verbatim>\<open>e.maxListeners > 0\<close> reads the word as a signed number. The length of a
  slice is a natural number (a slice never has more than \<open>2 ^ (w - 1)\<close> elements).
\<close>

subsection \<open>Messages and callbacks\<close>

datatype ZagroMessage = ZagroMessage (Data: string)

text \<open>
  A \<^verbatim>\<open>ZagroCallback\<close> is a Go closure. What a closure does that matters here is
  that it runs (observed under a label the caller chose) and that it may call the
  emitter again. A callback of the user is therefore a label and a script: the calls of
  the emitter's methods it makes, in order. The closure that \<^verbatim>\<open>Once\<close> builds is the
  second kind of callback: it holds the event name, the value of the variable
  \<^verbatim>\<open>id\<close> it captured and the callback of the user.
\<close>

datatype 'i action =
    DoOn string "'i ucb"
  | DoOnce string "'i ucb"
  | DoEmit string ZagroMessage
  | DoOff string 'i
  | DoRemoveAll string
  | DoCount string
  | DoCountAll
and 'i ucb = User nat "'i action list"

datatype 'i ZagroCallback = Plain "'i ucb" | Wrapper string 'i "'i ucb"

subsection \<open>The emitter\<close>

record 'i listener =
  id_l :: 'i
  callback :: "'i ZagroCallback"

record 'i ZagroOptions =
  MaxListeners :: 'i

record 'i Zagro =
  events :: "(string, 'i listener list) fmap"
  nextID :: 'i
  maxListeners :: 'i

datatype error = errorString string

text \<open>\<^verbatim>\<open>NewZagro(opts ...ZagroOptions)\<close>: only the first option is read.\<close>

definition NewZagro :: "('w::len) word ZagroOptions list \<Rightarrow> 'w word Zagro" where
  "NewZagro opts =
     \<lparr>events = fmempty, nextID = 0,
      maxListeners = (case opts of [] \<Rightarrow> 0 | opt # _ \<Rightarrow> MaxListeners opt)\<rparr>"

text \<open>\<^verbatim>\<open>e.events[event]\<close>: reading a missing key gives the nil slice.\<close>

definition listeners_of :: "'i Zagro \<Rightarrow> string \<Rightarrow> 'i listener list" where
  "listeners_of e event = (case fmlookup (events e) event of None \<Rightarrow> [] | Some ls \<Rightarrow> ls)"

text \<open>\<^verbatim>\<open>On\<close> returns the pair \<^verbatim>\<open>(int, error)\<close>; \<open>None\<close> is the nil error.\<close>

definition On ::
  "('w::len) word Zagro \<Rightarrow> string \<Rightarrow> 'w word ZagroCallback
     \<Rightarrow> ('w word \<times> error option) \<times> 'w word Zagro" where
  "On e event cb =
     (if 0 < sint (maxListeners e) \<and> sint (maxListeners e) \<le> int (length (listeners_of e event))
      then ((0, Some (errorString (''max listeners exceeded for event: '' @ event))), e)
      else
        let e1 = e\<lparr>nextID := nextID e + 1\<rparr>;
            l = \<lparr>id_l = nextID e1, callback = cb\<rparr>
        in ((id_l l, None), e1\<lparr>events := fmupd event (listeners_of e1 event @ [l]) (events e1)\<rparr>))"

text \<open>
  \<^verbatim>\<open>Once\<close> builds the wrapper around the variable \<^verbatim>\<open>id\<close> and assigns the variable
  when \<^verbatim>\<open>On\<close> returns. \<^verbatim>\<open>On\<close> runs no callback, so on one goroutine the wrapper is
  first run after the assignment: the value it reads is the id that \<^verbatim>\<open>On\<close> returned,
  \<open>nextID e + 1\<close>. When \<^verbatim>\<open>On\<close> fails the wrapper is stored nowhere.
\<close>

definition Once ::
  "('w::len) word Zagro \<Rightarrow> string \<Rightarrow> 'w word ucb
     \<Rightarrow> ('w word \<times> error option) \<times> 'w word Zagro" where
  "Once e event cb = On e event (Wrapper event (nextID e + 1) cb)"

text \<open>
  The loop of \<^verbatim>\<open>Off\<close>: \<open>pre\<close> is \<^verbatim>\<open>listeners[:i]\<close>, and at the first listener with
  the id the result is \<^verbatim>\<open>append(listeners[:i], listeners[i+1:]...)\<close>. \<open>None\<close>: the
  loop ended without an assignment.
\<close>

fun off_loop :: "'i \<Rightarrow> 'i listener list \<Rightarrow> 'i listener list \<Rightarrow> 'i listener list option" where
  "off_loop i pre [] = None"
| "off_loop i pre (l # rest) =
     (if id_l l = i then Some (pre @ rest) else off_loop i (pre @ [l]) rest)"

definition Off :: "'i Zagro \<Rightarrow> string \<Rightarrow> 'i \<Rightarrow> 'i Zagro" where
  "Off e event i =
     (case fmlookup (events e) event of
        None \<Rightarrow> e
      | Some listeners \<Rightarrow>
          let e1 = (case off_loop i [] listeners of
                      None \<Rightarrow> e
                    | Some ls \<Rightarrow> e\<lparr>events := fmupd event ls (events e)\<rparr>)
          in if length (listeners_of e1 event) = 0
             then e1\<lparr>events := fmdrop event (events e1)\<rparr>
             else e1)"

definition RemoveAll :: "'i Zagro \<Rightarrow> string \<Rightarrow> 'i Zagro" where
  "RemoveAll e event = e\<lparr>events := fmdrop event (events e)\<rparr>"

text \<open>
  \<^verbatim>\<open>Count\<close> and \<^verbatim>\<open>CountAll\<close> return their result and the emitter, as every method
  does here. The loop of \<^verbatim>\<open>CountAll\<close> visits the keys of the map in an order that Go
  does not fix; the sum over the set of keys is the same in every order.
\<close>

definition Count :: "'i Zagro \<Rightarrow> string \<Rightarrow> nat \<times> 'i Zagro" where
  "Count e event = (length (listeners_of e event), e)"

definition CountAll :: "'i Zagro \<Rightarrow> nat \<times> 'i Zagro" where
  "CountAll e = (\<Sum>event \<in> fmdom' (events e). length (listeners_of e event), e)"

subsection \<open>Running callbacks\<close>

text \<open>
  What a run lets one observe: \<open>Fired d lbl msg\<close>, the callback of the user with label
  \<open>lbl\<close> ran with message \<open>msg\<close>, called by an \<^verbatim>\<open>Emit\<close> at nesting depth \<open>d\<close>; and
  \<open>Returned i err\<close>, a call of \<^verbatim>\<open>On\<close> or \<^verbatim>\<open>Once\<close> returned \<open>(i, err)\<close>.
\<close>

datatype 'i obs = Fired nat nat ZagroMessage | Returned 'i "error option"

type_synonym 'i world = "'i Zagro \<times> 'i obs list"

text \<open>The copy \<^verbatim>\<open>Emit\<close> makes under the lock: the callbacks, without the ids.\<close>

definition snapshot :: "'i Zagro \<Rightarrow> string \<Rightarrow> 'i ZagroCallback list" where
  "snapshot e event = map callback (listeners_of e event)"

text \<open>
  \<^verbatim>\<open>Emit\<close> and the callbacks call each other, and a callback that emits its own event
  never returns: Go's stack grows until the runtime stops the program. \<open>fuel\<close> bounds
  the depth of callbacks inside callbacks, and \<open>None\<close> is the run that exceeds it.
  \<open>run_callbacks\<close> is the loop \<^verbatim>\<open>for _, cb := range callbacks { cb(msg) }\<close>,
  \<open>invoke\<close> is the call \<^verbatim>\<open>cb(msg)\<close> (for the wrapper of \<^verbatim>\<open>Once\<close>:
  \<^verbatim>\<open>e.Off(event, id); cb(msg)\<close>), \<open>call_user\<close> runs a callback of the user, and
  \<open>exec\<close> and \<open>perform\<close> run a script. A caller of the emitter is a script at depth 0.
\<close>

function (sequential)
  run_callbacks :: "nat \<Rightarrow> nat \<Rightarrow> ('w::len) word ZagroCallback list \<Rightarrow> ZagroMessage
     \<Rightarrow> 'w word world \<Rightarrow> 'w word world option"
and invoke :: "nat \<Rightarrow> nat \<Rightarrow> ('w::len) word ZagroCallback \<Rightarrow> ZagroMessage
     \<Rightarrow> 'w word world \<Rightarrow> 'w word world option"
and call_user :: "nat \<Rightarrow> nat \<Rightarrow> ('w::len) word ucb \<Rightarrow> ZagroMessage
     \<Rightarrow> 'w word world \<Rightarrow> 'w word world option"
and exec :: "nat \<Rightarrow> nat \<Rightarrow> ('w::len) word action list
     \<Rightarrow> 'w word world \<Rightarrow> 'w word world option"
and perform :: "nat \<Rightarrow> nat \<Rightarrow> ('w::len) word action
     \<Rightarrow> 'w word world \<Rightarrow> 'w word world option"
and Emit :: "nat \<Rightarrow> nat \<Rightarrow> string \<Rightarrow> ZagroMessage
     \<Rightarrow> ('w::len) word world \<Rightarrow> 'w word world option"
where
  "run_callbacks fuel d [] msg w = Some w"
| "run_callbacks 0 d (cb # cbs) msg w = None"
| "run_callbacks (Suc fuel) d (cb # cbs) msg w =
     (case invoke fuel d cb msg w of
        None \<Rightarrow> None
      | Some w' \<Rightarrow> run_callbacks (Suc fuel) d cbs msg w')"
| "invoke fuel d (Plain cb) msg w = call_user fuel d cb msg w"
| "invoke fuel d (Wrapper event i cb) msg (e, tr) = call_user fuel d cb msg (Off e event i, tr)"
| "call_user fuel d (User lbl body) msg (e, tr) = exec fuel d body (e, tr @ [Fired d lbl msg])"
| "exec fuel d [] w = Some w"
| "exec fuel d (a # as) w =
     (case perform fuel d a w of
        None \<Rightarrow> None
      | Some w' \<Rightarrow> exec fuel d as w')"
| "perform fuel d (DoOn event cb) (e, tr) =
     (case On e event (Plain cb) of ((i, err), e') \<Rightarrow> Some (e', tr @ [Returned i err]))"
| "perform fuel d (DoOnce event cb) (e, tr) =
     (case Once e event cb of ((i, err), e') \<Rightarrow> Some (e', tr @ [Returned i err]))"
| "perform fuel d (DoEmit event msg) w = Emit fuel (Suc d) event msg w"
| "perform fuel d (DoOff event i) (e, tr) = Some (Off e event i, tr)"
| "perform fuel d (DoRemoveAll event) (e, tr) = Some (RemoveAll e event, tr)"
| "perform fuel d (DoCount event) (e, tr) = Some (snd (Count e event), tr)"
| "perform fuel d DoCountAll (e, tr) = Some (snd (CountAll e), tr)"
| "Emit fuel d event msg (e, tr) = run_callbacks fuel d (snapshot e event) msg (e, tr)"
  by pat_completeness auto
termination
  by (relation "inv_image (less_than <*lex*> less_than <*lex*> less_than)
       (\<lambda>x. case x of
          Inl (Inl (fuel, d, cbs, msg, w)) \<Rightarrow> (fuel, 0::nat, length cbs)
        | Inl (Inr (Inl (fuel, d, cb, msg, w))) \<Rightarrow> (fuel, 5, 0)
        | Inl (Inr (Inr (fuel, d, cb, msg, w))) \<Rightarrow> (fuel, 4, 0)
        | Inr (Inl (fuel, d, as, w)) \<Rightarrow> (fuel, 3, 2 * size_list size as)
        | Inr (Inr (Inl (fuel, d, a, w))) \<Rightarrow> (fuel, 3, 2 * size a + 1)
        | Inr (Inr (Inr (fuel, d, event, msg, w))) \<Rightarrow> (fuel, 1, 0))") auto

subsection \<open>Notions used in the statements\<close>

text \<open>No key of the map has an empty slice.\<close>

definition no_empty :: "'i Zagro \<Rightarrow> bool" where
  "no_empty e = (\<forall>event. fmlookup (events e) event \<noteq> Some [])"

text \<open>The label under which a registered callback is observed when it runs.\<close>

fun label_of :: "'i ZagroCallback \<Rightarrow> nat" where
  "label_of (Plain (User lbl body)) = lbl"
| "label_of (Wrapper event i (User lbl body)) = lbl"

text \<open>The callbacks that ran at depth \<open>d\<close>, in order, each with its message.\<close>

fun fired_at :: "nat \<Rightarrow> 'i obs list \<Rightarrow> (nat \<times> ZagroMessage) list" where
  "fired_at d [] = []"
| "fired_at d (Fired d' lbl msg # tr) =
     (if d' = d then (lbl, msg) # fired_at d tr else fired_at d tr)"
| "fired_at d (Returned i err # tr) = fired_at d tr"

text \<open>How often the callback with label \<open>lbl\<close> ran, at any depth.\<close>

fun fired :: "nat \<Rightarrow> 'i obs list \<Rightarrow> nat" where
  "fired lbl [] = 0"
| "fired lbl (Fired d lbl' msg # tr) = (if lbl' = lbl then Suc (fired lbl tr) else fired lbl tr)"
| "fired lbl (Returned i err # tr) = fired lbl tr"

text \<open>The ids that the successful registrations returned, in order.\<close>

fun minted :: "'i obs list \<Rightarrow> 'i list" where
  "minted [] = []"
| "minted (Fired d lbl msg # tr) = minted tr"
| "minted (Returned i None # tr) = i # minted tr"
| "minted (Returned i (Some err) # tr) = minted tr"

text \<open>
  A list of registrations on one event: each is a callback of the user and whether it
  goes through \<^verbatim>\<open>Once\<close> (\<open>True\<close>) or \<^verbatim>\<open>On\<close>. \<open>reg_action\<close> is the call,
  \<open>reg_callback\<close> the callback that the call stores when it returns the id \<open>i\<close>, and
  \<open>registered event n rs\<close> the listeners that the calls append, one after the other,
  when the counter stands at \<open>n\<close> and none of them fails.
\<close>

definition reg_action :: "string \<Rightarrow> bool \<times> 'i ucb \<Rightarrow> 'i action" where
  "reg_action event r = (if fst r then DoOnce event (snd r) else DoOn event (snd r))"

definition reg_callback :: "string \<Rightarrow> 'i \<Rightarrow> bool \<times> 'i ucb \<Rightarrow> 'i ZagroCallback" where
  "reg_callback event i r = (if fst r then Wrapper event i (snd r) else Plain (snd r))"

fun registered :: "string \<Rightarrow> ('w::len) word \<Rightarrow> (bool \<times> 'w word ucb) list \<Rightarrow> 'w word listener list" where
  "registered event n [] = []"
| "registered event n (r # rs) =
     \<lparr>id_l = n + 1, callback = reg_callback event (n + 1) r\<rparr> # registered event (n + 1) rs"

text \<open>
  Callbacks that never emit: a script is free of \<^verbatim>\<open>Emit\<close> when none of its calls is
  one and the callbacks it registers are free of it too. An emitter is \<open>quiet\<close> when
  all callbacks it holds are.
\<close>

fun emit_free :: "'i action \<Rightarrow> bool" and emit_free_ucb :: "'i ucb \<Rightarrow> bool" where
  "emit_free (DoOn event cb) = emit_free_ucb cb"
| "emit_free (DoOnce event cb) = emit_free_ucb cb"
| "emit_free (DoEmit event msg) = False"
| "emit_free (DoOff event i) = True"
| "emit_free (DoRemoveAll event) = True"
| "emit_free (DoCount event) = True"
| "emit_free DoCountAll = True"
| "emit_free_ucb (User lbl body) = list_all emit_free body"

fun emit_free_cb :: "'i ZagroCallback \<Rightarrow> bool" where
  "emit_free_cb (Plain cb) = emit_free_ucb cb"
| "emit_free_cb (Wrapper event i cb) = emit_free_ucb cb"

definition quiet :: "'i Zagro \<Rightarrow> bool" where
  "quiet e = (\<forall>event. list_all emit_free_cb (snapshot e event))"

text \<open>
  The ids that \<open>n\<close> successful registrations return when the counter stands at \<open>a\<close>:
  each adds one to the counter and returns it. \<open>counted w w'\<close> relates an emitter (with
  its observations) to a later one: the observations grew, the new ids are those of the
  counter, the counter moved by their number, a failed registration returned 0, and the
  ids of the listeners are old ones or new ones.
\<close>

fun ids_from :: "('w::len) word \<Rightarrow> nat \<Rightarrow> 'w word list" where
  "ids_from a 0 = []"
| "ids_from a (Suc n) = (a + 1) # ids_from (a + 1) n"

definition counted :: "('w::len) word world \<Rightarrow> 'w word world \<Rightarrow> bool" where
  "counted w w' = (\<exists>new n. snd w' = snd w @ new
      \<and> nextID (fst w') = nextID (fst w) + of_nat n
      \<and> minted new = ids_from (nextID (fst w)) n
      \<and> (\<forall>i err. Returned i (Some err) \<in> set new \<longrightarrow> i = 0)
      \<and> (\<forall>ev. id_l ` set (listeners_of (fst w') ev)
                \<subseteq> id_l ` set (listeners_of (fst w) ev) \<union> set (minted new)))"

text \<open>
  Callbacks that neither register nor emit: their scripts only remove and count. An
  emitter is \<open>calm\<close> when all callbacks it holds are. A script that is
  \<open>calm_or_emit event\<close> may also emit the one event. \<open>pending event i lbl\<close> describes
  an emitter in which a listener of the event with the id \<open>i\<close> may still be waiting: all
  callbacks are calm but those of the listeners of the event with that id, there is at
  most one such listener, and every callback of the event with the label \<open>lbl\<close> is
  the callback of such a listener. \<open>gone event lbl\<close> describes a calm emitter in which
  no callback of the event has the label.
\<close>

fun calm_action :: "'i action \<Rightarrow> bool" where
  "calm_action (DoOff event i) = True"
| "calm_action (DoRemoveAll event) = True"
| "calm_action (DoCount event) = True"
| "calm_action DoCountAll = True"
| "calm_action (DoOn event cb) = False"
| "calm_action (DoOnce event cb) = False"
| "calm_action (DoEmit event msg) = False"

fun calm_or_emit :: "string \<Rightarrow> 'i action \<Rightarrow> bool" where
  "calm_or_emit event (DoEmit ev msg) = (ev = event)"
| "calm_or_emit event (DoOff ev i) = True"
| "calm_or_emit event (DoRemoveAll ev) = True"
| "calm_or_emit event (DoCount ev) = True"
| "calm_or_emit event DoCountAll = True"
| "calm_or_emit event (DoOn ev cb) = False"
| "calm_or_emit event (DoOnce ev cb) = False"

fun calm_cb :: "'i ZagroCallback \<Rightarrow> bool" where
  "calm_cb (Plain (User lbl body)) = list_all calm_action body"
| "calm_cb (Wrapper event i (User lbl body)) = list_all calm_action body"

definition calm :: "'i Zagro \<Rightarrow> bool" where
  "calm e = (\<forall>event. list_all calm_cb (snapshot e event))"

definition pending :: "string \<Rightarrow> 'i \<Rightarrow> nat \<Rightarrow> 'i Zagro \<Rightarrow> bool" where
  "pending event i lbl e =
     ((\<forall>ev. \<forall>l \<in> set (listeners_of e ev). calm_cb (callback l) \<or> ev = event \<and> id_l l = i)
      \<and> length (filter (\<lambda>l. id_l l = i) (listeners_of e event)) \<le> 1
      \<and> (\<forall>l \<in> set (listeners_of e event). label_of (callback l) = lbl \<longrightarrow> id_l l = i))"

definition gone :: "string \<Rightarrow> nat \<Rightarrow> 'i Zagro \<Rightarrow> bool" where
  "gone event lbl e = (calm e \<and> lbl \<notin> label_of ` set (snapshot e event))"

subsection \<open>Example emitters\<close>

text \<open>
  An emitter with at most two listeners per event, and the same emitter after three calls
  of \<^verbatim>\<open>On\<close>: callbacks 1 and 2 on \<^verbatim>\<open>"e"\<close>, callback 3 on \<^verbatim>\<open>"f"\<close>.
\<close>

definition limit_two :: "64 word Zagro" where
  "limit_two = NewZagro [\<lparr>MaxListeners = 2\<rparr>]"

definition busy :: "64 word Zagro" where
  "busy = snd (On (snd (On (snd (On limit_two ''e'' (Plain (User 1 [])))) ''e'' (Plain (User 2 []))))
                ''f'' (Plain (User 3 [])))"

text \<open>
  An emitter whose first callback on \<^verbatim>\<open>"e"\<close> registers callback 3, removes the second
  listener and registers callback 4 through \<^verbatim>\<open>Once\<close>; the second callback does nothing.
\<close>

definition mutating :: "64 word Zagro" where
  "mutating =
     snd (On (snd (On (NewZagro [])
                 ''e'' (Plain (User 1 [DoOn ''e'' (User 3 []), DoOff ''e'' 2, DoOnce ''e'' (User 4 [])]))))
            ''e'' (Plain (User 2 [])))"

text \<open>
  An emitter with callbacks nested three deep: callback 1 on \<^verbatim>\<open>"a"\<close> emits \<^verbatim>\<open>"b"\<close>,
  callback 2 on \<^verbatim>\<open>"b"\<close> emits \<^verbatim>\<open>"c"\<close>, and callback 3 on \<^verbatim>\<open>"c"\<close> does nothing.
\<close>

definition nest :: "64 word Zagro" where
  "nest =
     snd (On (snd (On (snd (On (NewZagro [])
                 ''a'' (Plain (User 1 [DoEmit ''b'' (ZagroMessage ''to b'')]))))
            ''b'' (Plain (User 2 [DoEmit ''c'' (ZagroMessage ''to c'')]))))
       ''c'' (Plain (User 3 [])))"

section \<open>Properties\<close>

subsection \<open>Facts about the single methods\<close>

lemma listeners_of_On:
  "listeners_of (snd (On e event cb)) ev =
     (if 0 < sint (maxListeners e) \<and> sint (maxListeners e) \<le> int (length (listeners_of e event))
      then listeners_of e ev
      else if ev = event then listeners_of e event @ [\<lparr>id_l = nextID e + 1, callback = cb\<rparr>]
      else listeners_of e ev)"
  by (simp add: On_def listeners_of_def Let_def)

lemma off_loop_None: "off_loop i pre ls = None \<longleftrightarrow> i \<notin> id_l ` set ls"
  by (induction ls arbitrary: pre) auto

lemma off_loop_Some:
  "off_loop i pre ls = Some r \<longleftrightarrow>
     (\<exists>xs l ys. ls = xs @ l # ys \<and> id_l l = i \<and> i \<notin> id_l ` set xs \<and> r = pre @ xs @ ys)"
proof (induction ls arbitrary: pre)
  case Nil
  then show ?case by simp
next
  case (Cons a ls)
  show ?case
  proof (cases "id_l a = i")
    case True
    then show ?thesis
      apply simp
      apply (rule iffI)
       apply (rule exI[of _ "[]"]) apply simp
      apply (elim exE conjE)
      subgoal for xs l ys by (cases xs) auto
      done
  next
    case False
    then show ?thesis
      apply (simp add: Cons.IH)
      apply (rule iffI)
       apply (elim exE conjE)
      subgoal for xs l ys by (rule exI[of _ "a # xs"]) auto
      apply (elim exE conjE)
      subgoal for xs l ys by (cases xs) auto
      done
  qed
qed

lemma listeners_of_Off:
  "listeners_of (Off e event i) ev =
     (if ev = event
      then (case off_loop i [] (listeners_of e event) of None \<Rightarrow> listeners_of e event | Some ls \<Rightarrow> ls)
      else listeners_of e ev)"
  by (auto simp: Off_def listeners_of_def Let_def split: option.splits)

lemma nextID_Off [simp]: "nextID (Off e event i) = nextID e"
  by (auto simp: Off_def Let_def split: option.splits)

lemma maxListeners_Off [simp]: "maxListeners (Off e event i) = maxListeners e"
  by (auto simp: Off_def Let_def split: option.splits)

lemma Off_absent: "fmlookup (events e) event = None \<Longrightarrow> Off e event i = e"
  by (simp add: Off_def)

lemma Off_no_id:
  "i \<notin> id_l ` set (listeners_of e event) \<Longrightarrow> fmlookup (events e) event \<noteq> Some [] \<Longrightarrow> Off e event i = e"
proof (cases "fmlookup (events e) event")
  case None
  then show ?thesis by (simp add: Off_def)
next
  case (Some ls)
  assume a: "i \<notin> id_l ` set (listeners_of e event)" "fmlookup (events e) event \<noteq> Some []"
  from a Some have "off_loop i [] ls = None" by (simp add: off_loop_None listeners_of_def)
  with a Some show ?thesis by (simp add: Off_def Let_def listeners_of_def)
qed

lemma no_empty_Off: "no_empty e \<Longrightarrow> no_empty (Off e event i)"
  by (auto simp: Off_def Let_def listeners_of_def no_empty_def split: option.splits)

lemma no_empty_On: "no_empty e \<Longrightarrow> no_empty (snd (On e event cb))"
  by (auto simp: On_def Let_def no_empty_def)

lemma no_empty_RemoveAll: "no_empty e \<Longrightarrow> no_empty (RemoveAll e event)"
  by (auto simp: RemoveAll_def no_empty_def)

lemma no_empty_NewZagro: "no_empty (NewZagro opts)"
  by (simp add: NewZagro_def no_empty_def)

lemma Count_fst: "fst (Count e event) = length (listeners_of e event)"
  by (simp add: Count_def)

lemma off_loop_filter:
  "distinct (map id_l ls) \<Longrightarrow> off_loop i pre ls = Some r \<Longrightarrow> r = pre @ filter (\<lambda>l. id_l l \<noteq> i) ls"
proof (induction ls arbitrary: pre)
  case Nil
  then show ?case by simp
next
  case (Cons a ls)
  show ?case
  proof (cases "id_l a = i")
    case True
    with Cons.prems have "r = pre @ ls" "i \<notin> id_l ` set ls" by auto
    then have "filter (\<lambda>l. id_l l \<noteq> i) ls = ls" by (intro filter_True) auto
    with \<open>r = pre @ ls\<close> show ?thesis using True by simp
  next
    case False
    with Cons.prems have "off_loop i (pre @ [a]) ls = Some r" "distinct (map id_l ls)" by auto
    from Cons.IH[OF this(2) this(1)] False show ?thesis by simp
  qed
qed

lemma fmlookup_Off_other: "ev \<noteq> event \<Longrightarrow> fmlookup (events (Off e event i)) ev = fmlookup (events e) ev"
  by (auto simp: Off_def Let_def split: option.splits)

lemma Off_last:
  "fmlookup (events e) event = Some [l] \<Longrightarrow> id_l l = i \<Longrightarrow> Off e event i = e\<lparr>events := fmdrop event (events e)\<rparr>"
  by (simp add: Off_def Let_def listeners_of_def fmdrop_fmupd_same)

lemma On_fails_iff:
  "snd (fst (On e event cb)) \<noteq> None \<longleftrightarrow>
     0 < sint (maxListeners e) \<and> sint (maxListeners e) \<le> int (length (listeners_of e event))"
  by (simp add: On_def Let_def)

lemma On_fails_result:
  "snd (fst (On e event cb)) \<noteq> None \<Longrightarrow>
     On e event cb = ((0, Some (errorString (''max listeners exceeded for event: '' @ event))), e)"
  by (simp add: On_def Let_def split: if_splits)

lemma On_success:
  "snd (fst (On e event cb)) = None \<Longrightarrow>
     fst (fst (On e event cb)) = nextID e + 1
     \<and> nextID (snd (On e event cb)) = nextID e + 1
     \<and> maxListeners (snd (On e event cb)) = maxListeners e
     \<and> listeners_of (snd (On e event cb)) event
          = listeners_of e event @ [\<lparr>id_l = nextID e + 1, callback = cb\<rparr>]
     \<and> (\<forall>ev. ev \<noteq> event \<longrightarrow> fmlookup (events (snd (On e event cb))) ev = fmlookup (events e) ev)"
  by (simp add: On_def Let_def listeners_of_def split: if_splits)

lemma maxListeners_On [simp]: "maxListeners (snd (On e event cb)) = maxListeners e"
  by (simp add: On_def Let_def)

lemma Once_as_On: "Once e event u = On e event (reg_callback event (nextID e + 1) (True, u))"
  by (simp add: Once_def reg_callback_def)

lemmas ev_simps = NewZagro_def On_def Once_def Off_def RemoveAll_def Count_def CountAll_def
  listeners_of_def snapshot_def reg_action_def reg_callback_def Let_def limit_two_def busy_def mutating_def nest_def

subsection \<open>Induction over a run\<close>

text \<open>
  A relation between emitters (with their observations) that is reflexive and transitive
  and holds across every single step of the methods holds across every run.
\<close>

lemma run_rel:
  fixes R :: "('w::len) word world \<Rightarrow> 'w word world \<Rightarrow> bool"
  assumes rfl: "\<And>w. R w w"
    and trn: "\<And>a b c. R a b \<Longrightarrow> R b c \<Longrightarrow> R a c"
    and reg: "\<And>e tr ev cb. R (e, tr)
                (snd (On e ev cb), tr @ [Returned (fst (fst (On e ev cb))) (snd (fst (On e ev cb)))])"
    and off: "\<And>e tr ev i. R (e, tr) (Off e ev i, tr)"
    and rem: "\<And>e tr ev. R (e, tr) (RemoveAll e ev, tr)"
    and fire: "\<And>e tr d l m. R (e, tr) (e, tr @ [Fired d l m])"
  shows "\<And>w'. run_callbacks fuel d cbs msg w = Some w' \<Longrightarrow> R w w'"
    and "\<And>w'. invoke fuel d cb msg w = Some w' \<Longrightarrow> R w w'"
    and "\<And>w'. call_user fuel d u msg w = Some w' \<Longrightarrow> R w w'"
    and "\<And>w'. exec fuel d as w = Some w' \<Longrightarrow> R w w'"
    and "\<And>w'. perform fuel d a w = Some w' \<Longrightarrow> R w w'"
    and "\<And>w'. Emit fuel d event msg w = Some w' \<Longrightarrow> R w w'"
proof (induction fuel d cbs msg w and fuel d cb msg w and fuel d u msg w and fuel d as w
         and fuel d a w and fuel d event msg w
       rule: run_callbacks_invoke_call_user_exec_perform_Emit.induct)
  case (1 fuel d msg w)
  then show ?case by (simp add: rfl)
next
  case (2 d cb cbs msg w)
  then show ?case by simp
next
  case (3 fuel d cb cbs msg w)
  from "3.prems" obtain w1 where a: "invoke fuel d cb msg w = Some w1"
    and b: "run_callbacks (Suc fuel) d cbs msg w1 = Some w'"
    by (auto split: option.splits)
  from "3.IH"(1)[OF a] "3.IH"(2)[OF a b] show ?case by (rule trn)
next
  case (4 fuel d cb msg w)
  then show ?case by simp
next
  case (5 fuel d event i cb msg e tr)
  from "5.prems" have "R (Off e event i, tr) w'" by (simp add: "5.IH")
  with off show ?case by (rule trn)
next
  case (6 fuel d lbl body msg e tr)
  from "6.prems" have "R (e, tr @ [Fired d lbl msg]) w'" by (simp add: "6.IH")
  with fire show ?case by (rule trn)
next
  case (7 fuel d w)
  then show ?case by (simp add: rfl)
next
  case (8 fuel d a as w)
  from "8.prems" obtain w1 where a: "perform fuel d a w = Some w1"
    and b: "exec fuel d as w1 = Some w'"
    by (auto split: option.splits)
  from "8.IH"(1)[OF a] "8.IH"(2)[OF a b] show ?case by (rule trn)
next
  case (9 fuel d event cb e tr)
  then show ?case using reg[of e tr event "Plain cb"] by (auto split: prod.splits)
next
  case (10 fuel d event cb e tr)
  then show ?case using reg[of e tr event "Wrapper event (nextID e + 1) cb"]
    by (auto simp: Once_def split: prod.splits)
next
  case (11 fuel d event msg w)
  then show ?case by simp
next
  case (12 fuel d event i e tr)
  then show ?case using off by auto
next
  case (13 fuel d event e tr)
  then show ?case using rem by auto
next
  case (14 fuel d event e tr)
  then show ?case by (simp add: Count_def rfl)
next
  case (15 fuel d e tr)
  then show ?case by (simp add: CountAll_def rfl)
next
  case (16 fuel d event msg e tr)
  then show ?case by simp
qed

text \<open>
  What a run adds to the observations: the callbacks of the loop at its own depth, and
  nothing at a smaller depth.
\<close>

lemma fired_at_append [simp]: "fired_at d (xs @ ys) = fired_at d xs @ fired_at d ys"
  by (induction d xs rule: fired_at.induct) auto

lemma run_fired_at:
  fixes w :: "('w::len) word world"
  shows "\<And>w'. run_callbacks fuel d cbs msg w = Some w' \<Longrightarrow>
           \<exists>new. snd w' = snd w @ new \<and> fired_at d new = map (\<lambda>cb. (label_of cb, msg)) cbs
                 \<and> (\<forall>k<d. fired_at k new = [])"
    and "\<And>w'. invoke fuel d cb msg w = Some w' \<Longrightarrow>
           \<exists>new. snd w' = snd w @ new \<and> fired_at d new = [(label_of cb, msg)]
                 \<and> (\<forall>k<d. fired_at k new = [])"
    and "\<And>w'. call_user fuel d u msg w = Some w' \<Longrightarrow>
           \<exists>new. snd w' = snd w @ new \<and> fired_at d new = [(label_of (Plain u), msg)]
                 \<and> (\<forall>k<d. fired_at k new = [])"
    and "\<And>w'. exec fuel d as w = Some w' \<Longrightarrow>
           \<exists>new. snd w' = snd w @ new \<and> (\<forall>k\<le>d. fired_at k new = [])"
    and "\<And>w'. perform fuel d a w = Some w' \<Longrightarrow>
           \<exists>new. snd w' = snd w @ new \<and> (\<forall>k\<le>d. fired_at k new = [])"
    and "\<And>w'. Emit fuel d event msg w = Some w' \<Longrightarrow>
           \<exists>new. snd w' = snd w @ new
                 \<and> fired_at d new = map (\<lambda>cb. (label_of cb, msg)) (snapshot (fst w) event)
                 \<and> (\<forall>k<d. fired_at k new = [])"
proof (induction fuel d cbs msg w and fuel d cb msg w and fuel d u msg w and fuel d as w
         and fuel d a w and fuel d event msg w
       rule: run_callbacks_invoke_call_user_exec_perform_Emit.induct)
  case (1 fuel d msg w)
  then show ?case by simp
next
  case (2 d cb cbs msg w)
  then show ?case by simp
next
  case (3 fuel d cb cbs msg w)
  from "3.prems" obtain w1 where a: "invoke fuel d cb msg w = Some w1"
    and b: "run_callbacks (Suc fuel) d cbs msg w1 = Some w'"
    by (auto split: option.splits)
  from "3.IH"(1)[OF a] obtain n1 where n1: "snd w1 = snd w @ n1"
    "fired_at d n1 = [(label_of cb, msg)]" "\<forall>k<d. fired_at k n1 = []" by blast
  from "3.IH"(2)[OF a b] obtain n2 where n2: "snd w' = snd w1 @ n2"
    "fired_at d n2 = map (\<lambda>cb. (label_of cb, msg)) cbs" "\<forall>k<d. fired_at k n2 = []" by blast
  show ?case
    by (rule exI[of _ "n1 @ n2"]) (use n1 n2 in simp)
next
  case (4 fuel d cb msg w)
  then show ?case by simp
next
  case (5 fuel d event i cb msg e tr)
  from "5.prems" have "call_user fuel d cb msg (Off e event i, tr) = Some w'" by simp
  from "5.IH"[OF this] show ?case by (cases cb) simp
next
  case (6 fuel d lbl body msg e tr)
  from "6.prems" have "exec fuel d body (e, tr @ [Fired d lbl msg]) = Some w'" by simp
  from "6.IH"[OF this] obtain n where n: "snd w' = (tr @ [Fired d lbl msg]) @ n"
    "\<forall>k\<le>d. fired_at k n = []" by auto
  show ?case
    by (rule exI[of _ "Fired d lbl msg # n"]) (use n in simp)
next
  case (7 fuel d w)
  then show ?case by simp
next
  case (8 fuel d a as w)
  from "8.prems" obtain w1 where a: "perform fuel d a w = Some w1"
    and b: "exec fuel d as w1 = Some w'"
    by (auto split: option.splits)
  from "8.IH"(1)[OF a] obtain n1 where n1: "snd w1 = snd w @ n1"
    "\<forall>k\<le>d. fired_at k n1 = []" by blast
  from "8.IH"(2)[OF a b] obtain n2 where n2: "snd w' = snd w1 @ n2"
    "\<forall>k\<le>d. fired_at k n2 = []" by blast
  show ?case
    by (rule exI[of _ "n1 @ n2"]) (use n1 n2 in simp)
next
  case (9 fuel d event cb e tr)
  then show ?case by (auto split: prod.splits)
next
  case (10 fuel d event cb e tr)
  then show ?case by (auto split: prod.splits)
next
  case (11 fuel d event msg w)
  from "11.prems" have "Emit fuel (Suc d) event msg w = Some w'" by simp
  from "11.IH"[OF this] obtain n where "snd w' = snd w @ n" "\<forall>k<Suc d. fired_at k n = []"
    by blast
  then show ?case by (auto simp: less_Suc_eq_le)
next
  case (12 fuel d event i e tr)
  then show ?case by auto
next
  case (13 fuel d event e tr)
  then show ?case by auto
next
  case (14 fuel d event e tr)
  then show ?case by auto
next
  case (15 fuel d e tr)
  then show ?case by auto
next
  case (16 fuel d event msg e tr)
  from "16.prems" have "run_callbacks fuel d (snapshot e event) msg (e, tr) = Some w'" by simp
  from "16.IH"[OF this] show ?case by simp
qed

text \<open>
  The loop of \<^verbatim>\<open>Emit\<close> with one more unit of fuel is its callbacks called in turn,
  each from where the one before left the emitter; and a run that returns returns the
  same with any more fuel: fuel only bounds the depth of the nesting.
\<close>

lemma fold_bind_None: "fold (\<lambda>cb r. Option.bind r (f cb)) cbs None = None"
  by (induction cbs) auto

lemma run_callbacks_fold:
  "run_callbacks (Suc fuel) d cbs msg w
     = fold (\<lambda>cb r. Option.bind r (invoke fuel d cb msg)) cbs (Some w)"
proof (induction cbs arbitrary: w)
  case Nil
  then show ?case by simp
next
  case (Cons cb cbs)
  then show ?case
    by (cases "invoke fuel d cb msg w") (simp_all add: fold_bind_None)
qed


lemma run_no_empty:
  fixes w :: "('w::len) word world"
  shows "exec fuel d as w = Some w' \<Longrightarrow> no_empty (fst w) \<Longrightarrow> no_empty (fst w')"
    and "Emit fuel d event msg w = Some w' \<Longrightarrow> no_empty (fst w) \<Longrightarrow> no_empty (fst w')"
    and "invoke fuel d cb msg w = Some w' \<Longrightarrow> no_empty (fst w) \<Longrightarrow> no_empty (fst w')"
proof -
  let ?R = "\<lambda>(a :: 'w word world) (b :: 'w word world). no_empty (fst a) \<longrightarrow> no_empty (fst b)"
  have r: "\<And>w. ?R w w" "\<And>a b c. ?R a b \<Longrightarrow> ?R b c \<Longrightarrow> ?R a c"
    "\<And>e tr ev cb. ?R (e, tr)
        (snd (On e ev cb), tr @ [Returned (fst (fst (On e ev cb))) (snd (fst (On e ev cb)))])"
    "\<And>e tr ev i. ?R (e, tr) (Off e ev i, tr)"
    "\<And>e tr ev. ?R (e, tr) (RemoveAll e ev, tr)"
    "\<And>e tr d l m. ?R (e, tr) (e, tr @ [Fired d l m])"
    by (auto simp: no_empty_On no_empty_Off no_empty_RemoveAll)
  show "exec fuel d as w = Some w' \<Longrightarrow> no_empty (fst w) \<Longrightarrow> no_empty (fst w')"
    using run_rel(4)[of ?R fuel d as w w', OF r] by simp
  show "Emit fuel d event msg w = Some w' \<Longrightarrow> no_empty (fst w) \<Longrightarrow> no_empty (fst w')"
    using run_rel(6)[of ?R fuel d event msg w w', OF r] by simp
  show "invoke fuel d cb msg w = Some w' \<Longrightarrow> no_empty (fst w) \<Longrightarrow> no_empty (fst w')"
    using run_rel(2)[of ?R fuel d cb msg w w', OF r] by simp
qed

text \<open>Registrations one after the other, none of which meets the limit.\<close>

lemma perform_reg:
  "perform fuel d (reg_action event r) (e, tr) =
     Some (snd (On e event (reg_callback event (nextID e + 1) r)),
           tr @ [Returned (fst (fst (On e event (reg_callback event (nextID e + 1) r))))
                          (snd (fst (On e event (reg_callback event (nextID e + 1) r))))])"
  by (cases r) (auto simp: reg_action_def reg_callback_def Once_def split: prod.splits)

lemma register_run:
  assumes "\<not> 0 < sint (maxListeners e)
           \<or> int (length (listeners_of e event) + length rs) \<le> sint (maxListeners e)"
  shows "\<exists>e'. exec fuel d (map (reg_action event) rs) (e, tr)
                 = Some (e', tr @ map (\<lambda>l. Returned (id_l l) None) (registered event (nextID e) rs))
          \<and> listeners_of e' event = listeners_of e event @ registered event (nextID e) rs
          \<and> (\<forall>ev. ev \<noteq> event \<longrightarrow> fmlookup (events e') ev = fmlookup (events e) ev)
          \<and> nextID e' = nextID e + of_nat (length rs)
          \<and> maxListeners e' = maxListeners e"
  using assms
proof (induction rs arbitrary: e tr)
  case Nil
  then show ?case by simp
next
  case (Cons r rs)
  let ?cb = "reg_callback event (nextID e + 1) r"
  let ?e1 = "snd (On e event ?cb)"
  from Cons.prems have ok: "snd (fst (On e event ?cb)) = None"
    using On_fails_iff[of e event ?cb] by auto
  note s = On_success[OF ok]
  from Cons.prems s have lim: "\<not> 0 < sint (maxListeners ?e1)
           \<or> int (length (listeners_of ?e1 event) + length rs) \<le> sint (maxListeners ?e1)"
    by auto
  from Cons.IH[OF lim, of "tr @ [Returned (nextID e + 1) None]"]
  obtain e' where e': "exec fuel d (map (reg_action event) rs) (?e1, tr @ [Returned (nextID e + 1) None])
                 = Some (e', (tr @ [Returned (nextID e + 1) None])
                      @ map (\<lambda>l. Returned (id_l l) None) (registered event (nextID ?e1) rs))"
          "listeners_of e' event = listeners_of ?e1 event @ registered event (nextID ?e1) rs"
          "\<forall>ev. ev \<noteq> event \<longrightarrow> fmlookup (events e') ev = fmlookup (events ?e1) ev"
          "nextID e' = nextID ?e1 + of_nat (length rs)"
          "maxListeners e' = maxListeners ?e1"
    by blast
  show ?case
    by (rule exI[of _ e']) (use e' s ok in \<open>simp add: perform_reg\<close>)
qed

text \<open>A quiet emitter stays quiet, and its callbacks return.\<close>

lemma set_listeners_of_Off: "set (listeners_of (Off e event i) ev) \<subseteq> set (listeners_of e ev)"
  by (auto simp: listeners_of_Off off_loop_Some split: option.splits)

lemma quiet_Off: "quiet e \<Longrightarrow> quiet (Off e event i)"
  using set_listeners_of_Off[of e event i]
  by (auto simp: quiet_def snapshot_def list_all_iff)

lemma quiet_RemoveAll: "quiet e \<Longrightarrow> quiet (RemoveAll e event)"
  by (auto simp: quiet_def snapshot_def list_all_iff RemoveAll_def listeners_of_def split: option.splits)

lemma quiet_On: "quiet e \<Longrightarrow> emit_free_cb cb \<Longrightarrow> quiet (snd (On e event cb))"
  by (auto simp: quiet_def snapshot_def list_all_iff listeners_of_On)

lemma perform_quiet:
  "quiet e \<Longrightarrow> emit_free a \<Longrightarrow> \<exists>e' tr'. perform fuel d a (e, tr) = Some (e', tr') \<and> quiet e'"
proof (cases a)
  case (DoOn event u)
  assume "quiet e" "emit_free a"
  with DoOn quiet_On[of e "Plain u" event] show ?thesis
    by (cases "On e event (Plain u)") auto
next
  case (DoOnce event u)
  assume "quiet e" "emit_free a"
  with DoOnce quiet_On[of e "Wrapper event (nextID e + 1) u" event] show ?thesis
    by (cases "On e event (Wrapper event (nextID e + 1) u)") (auto simp: Once_def)
qed (auto simp: quiet_Off quiet_RemoveAll Count_def CountAll_def)

lemma exec_quiet:
  "quiet e \<Longrightarrow> list_all emit_free as \<Longrightarrow> \<exists>e' tr'. exec fuel d as (e, tr) = Some (e', tr') \<and> quiet e'"
proof (induction as arbitrary: e tr)
  case Nil
  then show ?case by simp
next
  case (Cons a as)
  from Cons.prems perform_quiet[of e a fuel d tr] obtain e1 tr1 where
    p: "perform fuel d a (e, tr) = Some (e1, tr1)" "quiet e1" by auto
  from Cons.IH[OF p(2), of tr1] Cons.prems p(1) show ?case by simp
qed

lemma invoke_quiet:
  "quiet e \<Longrightarrow> emit_free_cb cb \<Longrightarrow> \<exists>e' tr'. invoke fuel d cb msg (e, tr) = Some (e', tr') \<and> quiet e'"
proof (cases cb)
  case (Plain u)
  assume "quiet e" "emit_free_cb cb"
  with Plain show ?thesis
    by (cases u) (use exec_quiet[of e _ fuel d] in auto)
next
  case (Wrapper event i u)
  assume "quiet e" "emit_free_cb cb"
  with Wrapper show ?thesis
    by (cases u) (use exec_quiet[of "Off e event i" _ fuel d] quiet_Off[of e event i] in auto)
qed

lemma run_callbacks_quiet:
  "quiet e \<Longrightarrow> list_all emit_free_cb cbs
     \<Longrightarrow> \<exists>e' tr'. run_callbacks (Suc fuel) d cbs msg (e, tr) = Some (e', tr') \<and> quiet e'"
proof (induction cbs arbitrary: e tr)
  case Nil
  then show ?case by simp
next
  case (Cons cb cbs)
  from Cons.prems invoke_quiet[of e cb fuel d msg tr] obtain e1 tr1 where
    p: "invoke fuel d cb msg (e, tr) = Some (e1, tr1)" "quiet e1" by auto
  from Cons.IH[OF p(2), of tr1] Cons.prems p(1) show ?case by simp
qed

lemma Emit_quiet:
  "quiet e \<Longrightarrow> \<exists>e' tr'. Emit (Suc fuel) d event msg (e, tr) = Some (e', tr') \<and> quiet e'"
  using run_callbacks_quiet[of e "snapshot e event" fuel d msg tr] by (simp add: quiet_def)

lemma label_of_registered:
  "map (\<lambda>l. f (label_of (callback l))) (registered event n rs) = map (\<lambda>r. f (label_of (Plain (snd r)))) rs"
proof (induction rs arbitrary: n)
  case Nil
  then show ?case by simp
next
  case (Cons r rs)
  obtain b u where r: "r = (b, u)" by (cases r)
  obtain lbl body where u: "u = User lbl body" by (cases u)
  from Cons.IH[of "n + 1"] show ?case by (simp add: r u reg_callback_def)
qed

lemma quiet_registered:
  assumes "quiet e" "list_all (\<lambda>r. emit_free_ucb (snd r)) rs"
    "listeners_of e1 event = listeners_of e event @ registered event n rs"
    "\<forall>ev. ev \<noteq> event \<longrightarrow> fmlookup (events e1) ev = fmlookup (events e) ev"
  shows "quiet e1"
proof -
  have r: "list_all emit_free_cb (map callback (registered event n rs))"
    using assms(2)
  proof (induction rs arbitrary: n)
    case Nil
    then show ?case by simp
  next
    case (Cons r rs)
    then show ?case by (cases r) (auto simp: reg_callback_def)
  qed
  have "list_all emit_free_cb (snapshot e1 ev)" for ev
  proof (cases "ev = event")
    case True
    with assms(1,3) r show ?thesis by (simp add: quiet_def snapshot_def)
  next
    case False
    with assms(4) have "listeners_of e1 ev = listeners_of e ev" by (simp add: listeners_of_def)
    with assms(1) show ?thesis by (simp add: quiet_def snapshot_def)
  qed
  then show ?thesis by (simp add: quiet_def)
qed

subsection \<open>The counter and the ids\<close>

lemma minted_append [simp]: "minted (xs @ ys) = minted xs @ minted ys"
  by (induction xs rule: minted.induct) auto

lemma ids_from_add: "ids_from a (m + n) = ids_from a m @ ids_from (a + of_nat m) n"
  by (induction m arbitrary: a) (auto simp: add.assoc)

lemma length_ids_from [simp]: "length (ids_from a n) = n"
  by (induction n arbitrary: a) auto

lemma ids_from_nth: "k < n \<Longrightarrow> ids_from a n ! k = a + of_nat (Suc k)"
proof (induction n arbitrary: a k)
  case 0
  then show ?case by simp
next
  case (Suc n)
  then show ?case by (cases k) (auto simp: add.assoc)
qed

lemma ids_from_eq: "ids_from a n = map (\<lambda>k. a + of_nat k) [1..<Suc n]"
  by (rule nth_equalityI) (auto simp: ids_from_nth nth_append simp del: upt_Suc ids_from.simps)

lemma counted_refl: "counted w w"
  unfolding counted_def by (rule exI[of _ "[]"], rule exI[of _ 0]) simp

lemma counted_trans:
  assumes "counted a b" "counted b c"
  shows "counted a c"
proof -
  from assms(1) obtain n1 k1 where n1: "snd b = snd a @ n1"
    "nextID (fst b) = nextID (fst a) + of_nat k1"
    "minted n1 = ids_from (nextID (fst a)) k1"
    "\<forall>i err. Returned i (Some err) \<in> set n1 \<longrightarrow> i = 0"
    "\<forall>ev. id_l ` set (listeners_of (fst b) ev)
                \<subseteq> id_l ` set (listeners_of (fst a) ev) \<union> set (minted n1)"
    unfolding counted_def by blast
  from assms(2) obtain n2 k2 where n2: "snd c = snd b @ n2"
    "nextID (fst c) = nextID (fst b) + of_nat k2"
    "minted n2 = ids_from (nextID (fst b)) k2"
    "\<forall>i err. Returned i (Some err) \<in> set n2 \<longrightarrow> i = 0"
    "\<forall>ev. id_l ` set (listeners_of (fst c) ev)
                \<subseteq> id_l ` set (listeners_of (fst b) ev) \<union> set (minted n2)"
    unfolding counted_def by blast
  have m: "minted (n1 @ n2) = ids_from (nextID (fst a)) (k1 + k2)"
    by (simp add: ids_from_add n1(2,3) n2(3))
  have l: "\<forall>ev. id_l ` set (listeners_of (fst c) ev)
                \<subseteq> id_l ` set (listeners_of (fst a) ev) \<union> set (minted (n1 @ n2))"
  proof
    fix ev
    from n1(5) n2(5) have "id_l ` set (listeners_of (fst c) ev)
        \<subseteq> (id_l ` set (listeners_of (fst a) ev) \<union> set (minted n1)) \<union> set (minted n2)"
      by blast
    then show "id_l ` set (listeners_of (fst c) ev)
                \<subseteq> id_l ` set (listeners_of (fst a) ev) \<union> set (minted (n1 @ n2))"
      by (simp add: Un_assoc)
  qed
  have z: "\<forall>i err. Returned i (Some err) \<in> set (n1 @ n2) \<longrightarrow> i = 0"
    using n1(4) n2(4) by auto
  have s: "snd c = snd a @ (n1 @ n2)" by (simp add: n1(1) n2(1))
  have c: "nextID (fst c) = nextID (fst a) + of_nat (k1 + k2)"
    by (simp add: n1(2) n2(2) add.assoc)
  from s c m z l show ?thesis unfolding counted_def by blast
qed

lemma counted_On:
  "counted (e, tr) (snd (On e ev cb), tr @ [Returned (fst (fst (On e ev cb))) (snd (fst (On e ev cb)))])"
proof (cases "snd (fst (On e ev cb)) = None")
  case True
  note s = On_success[OF True]
  from True On_fails_iff[of e ev cb] have l: "listeners_of (snd (On e ev cb)) ev' =
      (if ev' = ev then listeners_of e ev @ [\<lparr>id_l = nextID e + 1, callback = cb\<rparr>]
       else listeners_of e ev')" for ev'
    by (auto simp: listeners_of_On)
  show ?thesis
    unfolding counted_def
    apply (rule exI[of _ "[Returned (nextID e + 1) None]"], rule exI[of _ 1])
    using s True by (auto simp: l)
next
  case False
  from On_fails_result[OF False] show ?thesis
    unfolding counted_def
    by (intro exI[of _ "[Returned 0 (Some (errorString (''max listeners exceeded for event: '' @ ev)))]"]
          exI[of _ 0]) simp
qed

lemma counted_Off: "counted (e, tr) (Off e ev i, tr)"
  unfolding counted_def
  using set_listeners_of_Off[of e ev i]
  by (intro exI[of _ "[]"] exI[of _ 0]) auto

lemma counted_RemoveAll: "counted (e, tr) (RemoveAll e ev, tr)"
  unfolding counted_def
  by (intro exI[of _ "[]"] exI[of _ 0])
     (auto simp: RemoveAll_def listeners_of_def split: option.splits)

lemma counted_Fired: "counted (e, tr) (e, tr @ [Fired d l m])"
  unfolding counted_def
  by (intro exI[of _ "[Fired d l m]"] exI[of _ 0]) simp

lemma exec_counted:
  assumes "exec fuel d ops w = Some w'"
  shows "counted w w'"
proof (rule run_rel(4)[where R = counted])
  show "exec fuel d ops w = Some w'" by fact
qed (auto intro: counted_refl counted_On counted_Off counted_RemoveAll counted_Fired
      elim: counted_trans)


lemma run_from_new:
  assumes "exec fuel 0 ops (NewZagro opts, []) = Some (e', tr)"
  shows "\<exists>n. minted tr = ids_from 0 n \<and> nextID e' = of_nat n
           \<and> (\<forall>i err. Returned i (Some err) \<in> set tr \<longrightarrow> i = 0)
           \<and> (\<forall>ev. id_l ` set (listeners_of e' ev) \<subseteq> set (minted tr))"
  using exec_counted[OF assms]
  by (auto simp: counted_def NewZagro_def listeners_of_def)

lemma distinct_ids_from:
  fixes a :: "('w::len) word"
  assumes "n \<le> 2 ^ LENGTH('w)"
  shows "distinct (ids_from a n)"
proof -
  have "inj_on (\<lambda>k. a + (of_nat k :: 'w word)) (set [1..<Suc n])"
  proof (rule inj_onI)
    fix x y assume xy: "x \<in> set [1..<Suc n]" "y \<in> set [1..<Suc n]"
      and eq: "a + (of_nat x :: 'w word) = a + of_nat y"
    from eq have "(of_nat x :: 'w word) = of_nat y" by simp
    then have "x mod 2 ^ LENGTH('w) = y mod 2 ^ LENGTH('w)"
      by (simp add: word_of_nat_eq_iff take_bit_eq_mod)
    moreover from xy assms have "1 \<le> x" "x \<le> 2 ^ LENGTH('w)" "1 \<le> y" "y \<le> 2 ^ LENGTH('w)"
      by auto
    ultimately show "x = y"
      by (cases "x = 2 ^ LENGTH('w)"; cases "y = 2 ^ LENGTH('w)") (auto simp: mod_if split: if_splits)
  qed
  then show ?thesis
    unfolding ids_from_eq by (simp add: distinct_map del: upt_Suc)
qed

lemma zero_notin_ids_from:
  assumes "n < 2 ^ LENGTH('w)"
  shows "(0 :: ('w::len) word) \<notin> set (ids_from 0 n)"
proof
  assume "(0 :: 'w word) \<in> set (ids_from 0 n)"
  then obtain k where k: "1 \<le> k" "k \<le> n" "(of_nat k :: 'w word) = 0"
    unfolding ids_from_eq by (auto simp del: upt_Suc)
  from k(3) have "2 ^ LENGTH('w) dvd k" by (simp add: word_of_nat_eq_0_iff)
  with k(1) have "2 ^ LENGTH('w) \<le> k" by (auto dest: dvd_imp_le)
  with k(2) assms show False by simp
qed

lemma positive_ids_from:
  assumes "n < 2 ^ (LENGTH('w) - 1)" "(i :: ('w::len) word) \<in> set (ids_from 0 n)"
  shows "1 \<le> sint i"
proof -
  from assms(2) obtain k where k: "1 \<le> k" "k \<le> n" "i = of_nat k"
    unfolding ids_from_eq by (auto simp del: upt_Suc)
  from k(2) assms(1) have "int k < 2 ^ (LENGTH('w) - 1)"
    by (metis le_less_trans of_nat_less_iff of_nat_numeral of_nat_power)
  then have "signed_take_bit (LENGTH('w) - Suc 0) (int k) = int k"
    by (intro signed_take_bit_int_eq_self) (auto intro: order_trans[of _ 0])
  then have "sint i = int k" by (simp add: k(3) signed_of_nat)
  with k(1) show ?thesis by simp
qed

text \<open>
  A caller that registers a listener and removes it again, \<open>n\<close> times over: the map
  stays as it was and the counter moves by \<open>n\<close>, around the end of the word.
\<close>

lemma wrap_run:
  fixes e :: "('w::len) word Zagro"
  assumes "maxListeners e = 0" "fmlookup (events e) ev = None"
  shows "exec fuel d (concat (replicate n [DoOn ev u, DoRemoveAll ev])) (e, tr)
           = Some (e\<lparr>nextID := nextID e + of_nat n\<rparr>,
                   tr @ map (\<lambda>i. Returned i None) (ids_from (nextID e) n))"
  using assms
proof (induction n arbitrary: e tr)
  case 0
  then show ?case by simp
next
  case (Suc n)
  let ?e1 = "e\<lparr>nextID := nextID e + 1\<rparr>"
  have on: "On e ev (Plain u) = ((nextID e + 1, None),
      ?e1\<lparr>events := fmupd ev [\<lparr>id_l = nextID e + 1, callback = Plain u\<rparr>] (events e)\<rparr>)"
    using Suc.prems by (simp add: On_def Let_def listeners_of_def)
  have dr: "fmdrop ev (fmupd ev [\<lparr>id_l = nextID e + 1, callback = Plain u\<rparr>] (events e)) = events e"
    using Suc.prems(2) by (simp add: fmdrop_fmupd_same fmdrop_idle' fmdom'_notI)
  have step: "exec fuel d (concat (replicate (Suc n) [DoOn ev u, DoRemoveAll ev])) (e, tr)
      = exec fuel d (concat (replicate n [DoOn ev u, DoRemoveAll ev]))
          (?e1, tr @ [Returned (nextID e + 1) None])"
    by (simp add: on RemoveAll_def dr)
  from Suc.prems have p: "maxListeners ?e1 = 0" "fmlookup (events ?e1) ev = None" by simp_all
  show ?case
    unfolding step Suc.IH[OF p]
    by (simp add: add.assoc)
qed

lemma wrap_from_new:
  "exec fuel d (concat (replicate n [DoOn ev u, DoRemoveAll ev])) (NewZagro [] :: ('w::len) word Zagro, [])
     = Some ((NewZagro [])\<lparr>nextID := of_nat n\<rparr>, map (\<lambda>i. Returned i None) (ids_from 0 n))"
  using wrap_run[of "NewZagro [] :: 'w word Zagro" ev fuel d n u "[]"]
  by (simp add: NewZagro_def)

lemma minted_Returned [simp]: "minted (map (\<lambda>i. Returned i None) xs) = xs"
  by (induction xs) auto

lemma id_one_twice:
  "\<not> distinct (ids_from (0 :: ('w::len) word) (2 ^ LENGTH('w) + 1))"
proof -
  let ?n = "2 ^ LENGTH('w) + 1 :: nat"
  have a: "ids_from (0 :: 'w word) ?n ! 0 = 1" by (simp add: ids_from_nth del: ids_from.simps)
  have "ids_from (0 :: 'w word) ?n ! (2 ^ LENGTH('w)) = of_nat (Suc (2 ^ LENGTH('w)))"
    by (simp add: ids_from_nth del: ids_from.simps of_nat_Suc)
  then have b: "ids_from (0 :: 'w word) ?n ! (2 ^ LENGTH('w)) = 1" by simp
  have "(0::nat) < length (ids_from (0 :: 'w word) ?n)" "2 ^ LENGTH('w) < length (ids_from (0 :: 'w word) ?n)"
    "(0::nat) \<noteq> 2 ^ LENGTH('w)"
    by simp_all
  with a b show ?thesis
    by (metis nth_eq_iff_index_eq)
qed

lemma id_zero_minted:
  "last (ids_from (0 :: ('w::len) word) (2 ^ LENGTH('w))) = 0"
proof -
  have "last (ids_from (0 :: 'w word) (2 ^ LENGTH('w)))
      = ids_from (0 :: 'w word) (2 ^ LENGTH('w)) ! (2 ^ LENGTH('w) - 1)"
    by (subst last_conv_nth) (auto simp del: ids_from.simps simp: length_0_conv[symmetric])
  also have "\<dots> = of_nat (Suc (2 ^ LENGTH('w) - 1))"
    by (simp add: ids_from_nth del: ids_from.simps of_nat_Suc)
  also have "\<dots> = 0" by simp
  finally show ?thesis .
qed



lemma wrap_not_distinct:
  "\<exists>e' tr. exec fuel d (concat (replicate (2 ^ LENGTH('w) + 1) [DoOn ev u, DoRemoveAll ev]))
              (NewZagro [] :: ('w::len) word Zagro, []) = Some (e', tr)
     \<and> \<not> distinct (minted tr)"
  apply (rule exI, rule exI, rule conjI, rule wrap_from_new)
  apply (simp only: minted_Returned)
  apply (rule id_one_twice)
  done

lemma wrap_zero:
  "\<exists>e' tr. exec fuel d (concat (replicate (2 ^ LENGTH('w)) [DoOn ev u, DoRemoveAll ev]))
              (NewZagro [] :: ('w::len) word Zagro, []) = Some (e', tr)
     \<and> last (minted tr) = 0 \<and> length (minted tr) = 2 ^ LENGTH('w)"
  apply (rule exI, rule exI, rule conjI, rule wrap_from_new)
  apply (simp only: minted_Returned)
  apply (rule conjI, rule id_zero_minted, rule length_ids_from)
  done

subsection \<open>Count and CountAll\<close>

text \<open>
  C10. \<^verbatim>\<open>Count\<close> and \<^verbatim>\<open>CountAll\<close> only observe: for every emitter and every event name,
  registered or not, the emitter they leave is the one they were given, with the same
  map, the same keys (no empty entry appears for an unknown name) and the same counter.
\<close>

theorem Count_CountAll_pure:
  "snd (Count e event) = e \<and> snd (CountAll e) = e
   \<and> events (snd (Count e event)) = events e
   \<and> fmdom (events (snd (Count e event))) = fmdom (events e)
   \<and> nextID (snd (Count e event)) = nextID e
   \<and> events (snd (CountAll e)) = events e
   \<and> nextID (snd (CountAll e)) = nextID e"
  by (simp add: Count_def CountAll_def)

text \<open>
  C8. \<^verbatim>\<open>Count(event)\<close> is the number of listeners registered for the event, and 0
  for a name that is not a key of the map. \<^verbatim>\<open>CountAll()\<close> is the sum of
  \<^verbatim>\<open>Count\<close> over the keys of the map, in whatever order the loop visits them.
  After \<^verbatim>\<open>RemoveAll(event)\<close> the count of the event is 0, whatever it was, the counts
  of the other events are as before, and \<^verbatim>\<open>RemoveAll\<close> of an event without listeners
  changes nothing.
\<close>

theorem Count_CountAll_RemoveAll:
  "fst (Count e event) = (case fmlookup (events e) event of None \<Rightarrow> 0 | Some ls \<Rightarrow> length ls)
   \<and> fst (CountAll e) = (\<Sum>ev \<in> fmdom' (events e). fst (Count e ev))
   \<and> (\<forall>ks. distinct ks \<and> set ks = fmdom' (events e)
          \<longrightarrow> fst (CountAll e) = sum_list (map (\<lambda>ev. fst (Count e ev)) ks))
   \<and> fst (Count (RemoveAll e event) event) = 0
   \<and> (\<forall>ev. ev \<noteq> event \<longrightarrow> fst (Count (RemoveAll e event) ev) = fst (Count e ev))
   \<and> (no_empty e \<and> fst (Count e event) = 0 \<longrightarrow> RemoveAll e event = e)"
proof -
  have a: "fst (Count e event) = (case fmlookup (events e) event of None \<Rightarrow> 0 | Some ls \<Rightarrow> length ls)"
    by (simp add: Count_def listeners_of_def split: option.splits)
  have b: "fst (CountAll e) = (\<Sum>ev \<in> fmdom' (events e). fst (Count e ev))"
    by (simp add: CountAll_def Count_def)
  have c: "\<forall>ks. distinct ks \<and> set ks = fmdom' (events e)
          \<longrightarrow> fst (CountAll e) = sum_list (map (\<lambda>ev. fst (Count e ev)) ks)"
    by (auto simp: b sum_list_distinct_conv_sum_set)
  have d: "fst (Count (RemoveAll e event) event) = 0"
    by (simp add: Count_def RemoveAll_def listeners_of_def)
  have f: "\<forall>ev. ev \<noteq> event \<longrightarrow> fst (Count (RemoveAll e event) ev) = fst (Count e ev)"
    by (simp add: Count_def RemoveAll_def listeners_of_def)
  have g: "no_empty e \<and> fst (Count e event) = 0 \<longrightarrow> RemoveAll e event = e"
  proof
    assume h: "no_empty e \<and> fst (Count e event) = 0"
    then have "fmlookup (events e) event = None"
      by (cases "fmlookup (events e) event") (auto simp: no_empty_def Count_def listeners_of_def)
    then have "fmdrop event (events e) = events e"
      by (simp add: fmdrop_idle' fmdom'_notI)
    then show "RemoveAll e event = e" by (simp add: RemoveAll_def)
  qed
  from a b c d f g show ?thesis by blast
qed

theorem Count_CountAll_RemoveAll_witness:
  "fst (Count busy ''e'') = 2 \<and> fst (Count busy ''x'') = 0
   \<and> fst (CountAll busy) = 3
   \<and> fst (CountAll busy) = sum_list (map (\<lambda>ev. fst (Count busy ev)) [''f'', ''e''])
   \<and> fst (Count (RemoveAll busy ''e'') ''e'') = 0
   \<and> fst (Count (RemoveAll busy ''e'') ''f'') = 1
   \<and> no_empty busy \<and> RemoveAll busy ''x'' = busy"
proof -
  have d: "distinct [''f'', ''e''] \<and> set [''f'', ''e''] = fmdom' (events busy)"
    by (auto simp: ev_simps)
  have n: "no_empty busy \<and> fst (Count busy ''x'') = 0"
    by (simp add: ev_simps no_empty_def)
  from d n Count_CountAll_RemoveAll[of busy "''e''"] Count_CountAll_RemoveAll[of busy "''x''"]
  show ?thesis by (simp add: ev_simps)
qed

subsection \<open>Off\<close>

text \<open>
  C7. \<^verbatim>\<open>Off(event, id)\<close>, when a listener of the event has the id, removes the first
  listener with the id (the only one when the ids of the event are distinct): the count
  of the event goes down by exactly 1 and the other listeners keep their order. When the
  event is not a key of the map, or no listener of the event has the id, the emitter is
  unchanged. The other events, the counter and the limit are never touched, and an event
  left without listeners is no longer a key of the map.
\<close>

theorem Off_removes_one:
  "(i \<in> id_l ` set (listeners_of e event) \<longrightarrow>
      (\<exists>xs l ys. listeners_of e event = xs @ l # ys \<and> id_l l = i \<and> i \<notin> id_l ` set xs
          \<and> listeners_of (Off e event i) event = xs @ ys)
      \<and> Suc (fst (Count (Off e event i) event)) = fst (Count e event))
   \<and> (i \<in> id_l ` set (listeners_of e event) \<and> distinct (map id_l (listeners_of e event)) \<longrightarrow>
        listeners_of (Off e event i) event = filter (\<lambda>l. id_l l \<noteq> i) (listeners_of e event))
   \<and> (fmlookup (events e) event = None \<longrightarrow> Off e event i = e)
   \<and> (no_empty e \<and> i \<notin> id_l ` set (listeners_of e event) \<longrightarrow> Off e event i = e)
   \<and> (\<forall>ev. ev \<noteq> event \<longrightarrow> fmlookup (events (Off e event i)) ev = fmlookup (events e) ev)
   \<and> nextID (Off e event i) = nextID e \<and> maxListeners (Off e event i) = maxListeners e
   \<and> (listeners_of (Off e event i) event = [] \<longrightarrow> fmlookup (events (Off e event i)) event = None)"
proof -
  have a: "i \<in> id_l ` set (listeners_of e event) \<longrightarrow>
      (\<exists>xs l ys. listeners_of e event = xs @ l # ys \<and> id_l l = i \<and> i \<notin> id_l ` set xs
          \<and> listeners_of (Off e event i) event = xs @ ys)
      \<and> Suc (fst (Count (Off e event i) event)) = fst (Count e event)"
  proof
    assume "i \<in> id_l ` set (listeners_of e event)"
    then obtain r where r: "off_loop i [] (listeners_of e event) = Some r"
      using off_loop_None[of i "[]" "listeners_of e event"] by (cases "off_loop i [] (listeners_of e event)") auto
    then obtain xs l ys where d: "listeners_of e event = xs @ l # ys" "id_l l = i"
      "i \<notin> id_l ` set xs" "r = xs @ ys"
      by (auto simp: off_loop_Some)
    from r have "listeners_of (Off e event i) event = r" by (simp add: listeners_of_Off)
    with d show "(\<exists>xs l ys. listeners_of e event = xs @ l # ys \<and> id_l l = i \<and> i \<notin> id_l ` set xs
          \<and> listeners_of (Off e event i) event = xs @ ys)
      \<and> Suc (fst (Count (Off e event i) event)) = fst (Count e event)"
      by (auto simp: Count_fst)
  qed
  have b: "i \<in> id_l ` set (listeners_of e event) \<and> distinct (map id_l (listeners_of e event)) \<longrightarrow>
        listeners_of (Off e event i) event = filter (\<lambda>l. id_l l \<noteq> i) (listeners_of e event)"
  proof
    assume h: "i \<in> id_l ` set (listeners_of e event) \<and> distinct (map id_l (listeners_of e event))"
    then obtain r where r: "off_loop i [] (listeners_of e event) = Some r"
      using off_loop_None[of i "[]" "listeners_of e event"] by (cases "off_loop i [] (listeners_of e event)") auto
    from off_loop_filter[OF _ r] h have "r = filter (\<lambda>l. id_l l \<noteq> i) (listeners_of e event)" by simp
    with r show "listeners_of (Off e event i) event = filter (\<lambda>l. id_l l \<noteq> i) (listeners_of e event)"
      by (simp add: listeners_of_Off)
  qed
  have c: "fmlookup (events e) event = None \<longrightarrow> Off e event i = e"
    by (simp add: Off_absent)
  have d: "no_empty e \<and> i \<notin> id_l ` set (listeners_of e event) \<longrightarrow> Off e event i = e"
    by (auto intro: Off_no_id simp: no_empty_def)
  have f: "\<forall>ev. ev \<noteq> event \<longrightarrow> fmlookup (events (Off e event i)) ev = fmlookup (events e) ev"
    by (simp add: fmlookup_Off_other)
  have g: "listeners_of (Off e event i) event = [] \<longrightarrow> fmlookup (events (Off e event i)) event = None"
    by (auto simp: Off_def Let_def listeners_of_def split: option.splits if_splits)
  from a b c d f g show ?thesis by simp
qed

theorem Off_removes_one_witness:
  "listeners_of (Off busy ''e'' 1) ''e'' = [\<lparr>id_l = 2, callback = Plain (User 2 [])\<rparr>]
   \<and> fst (Count busy ''e'') = 2 \<and> fst (Count (Off busy ''e'' 1) ''e'') = 1
   \<and> Off busy ''x'' 1 = busy \<and> Off busy ''e'' 7 = busy
   \<and> fmlookup (events (Off busy ''e'' 1)) ''f'' = fmlookup (events busy) ''f''
   \<and> fmlookup (events (Off busy ''f'' 3)) ''f'' = None"
proof -
  have a: "1 \<in> id_l ` set (listeners_of busy ''e'')
           \<and> distinct (map id_l (listeners_of busy ''e''))"
    by (simp add: ev_simps)
  have b: "fmlookup (events busy) ''x'' = None" by (simp add: ev_simps)
  have c: "no_empty busy \<and> 7 \<notin> id_l ` set (listeners_of busy ''e'')"
    by (simp add: ev_simps no_empty_def)
  have d: "listeners_of (Off busy ''f'' 3) ''f'' = []" by (simp add: ev_simps)
  from a b c d Off_removes_one[of 1 busy "''e''"] Off_removes_one[of 1 busy "''x''"]
    Off_removes_one[of 7 busy "''e''"] Off_removes_one[of 3 busy "''f''"]
  show ?thesis by (simp add: ev_simps)
qed

subsection \<open>No key without listeners\<close>

text \<open>
  C6. In every emitter that a caller reaches from \<^verbatim>\<open>NewZagro\<close> by calls of \<^verbatim>\<open>On\<close>,
  \<^verbatim>\<open>Once\<close>, \<^verbatim>\<open>Emit\<close> (whatever the callbacks do), \<^verbatim>\<open>Off\<close>, \<^verbatim>\<open>RemoveAll\<close>,
  \<^verbatim>\<open>Count\<close> and \<^verbatim>\<open>CountAll\<close>, every key of the map has at least one listener, and
  every run that starts from such an emitter ends in one. \<^verbatim>\<open>Off\<close> of the last listener
  of an event deletes the key, and so does the wrapper of \<^verbatim>\<open>Once\<close> before it runs the
  callback of the user.
\<close>

theorem no_empty_reachable:
  "(exec fuel 0 ops (NewZagro opts, []) = Some (e', tr) \<longrightarrow> no_empty e')
   \<and> (no_empty e \<and> exec fuel d ops (e, tr0) = Some (e', tr) \<longrightarrow> no_empty e')
   \<and> (no_empty e \<and> Emit fuel d event msg (e, tr0) = Some (e', tr) \<longrightarrow> no_empty e')
   \<and> (fmlookup (events e) event = Some [l] \<and> id_l l = i \<longrightarrow>
        fmlookup (events (Off e event i)) event = None)
   \<and> (fmlookup (events e) event = Some [l] \<and> id_l l = i \<longrightarrow>
        invoke fuel d (Wrapper event i (User lbl body)) msg (e, tr0)
          = exec fuel d body (e\<lparr>events := fmdrop event (events e)\<rparr>, tr0 @ [Fired d lbl msg]))"
proof -
  have a: "exec fuel 0 ops (NewZagro opts, []) = Some (e', tr) \<longrightarrow> no_empty e'"
    using run_no_empty(1)[of fuel 0 ops "(NewZagro opts, [])" "(e', tr)"]
    by (simp add: no_empty_NewZagro)
  have b: "no_empty e \<and> exec fuel d ops (e, tr0) = Some (e', tr) \<longrightarrow> no_empty e'"
    using run_no_empty(1)[of fuel d ops "(e, tr0)" "(e', tr)"] by simp
  have c: "no_empty e \<and> Emit fuel d event msg (e, tr0) = Some (e', tr) \<longrightarrow> no_empty e'"
    using run_no_empty(2)[of fuel d event msg "(e, tr0)" "(e', tr)"] by simp
  have f: "fmlookup (events e) event = Some [l] \<and> id_l l = i \<longrightarrow>
        fmlookup (events (Off e event i)) event = None"
    by (auto simp: Off_last)
  have g: "fmlookup (events e) event = Some [l] \<and> id_l l = i \<longrightarrow>
        invoke fuel d (Wrapper event i (User lbl body)) msg (e, tr0)
          = exec fuel d body (e\<lparr>events := fmdrop event (events e)\<rparr>, tr0 @ [Fired d lbl msg])"
    by (auto simp: Off_last)
  from a b c f g show ?thesis by blast
qed

theorem no_empty_reachable_witness:
  "\<exists>e' tr. exec 1 0 [DoOnce ''e'' (User 1 [DoOn ''f'' (User 2 [])]), DoEmit ''e'' (ZagroMessage ''m''),
                      DoOff ''f'' 2, DoCount ''g'', DoCountAll]
              (NewZagro [] :: 64 word Zagro, []) = Some (e', tr)
     \<and> no_empty e' \<and> events e' = fmempty"
proof -
  let ?ops = "[DoOnce ''e'' (User 1 [DoOn ''f'' (User 2 [])]), DoEmit ''e'' (ZagroMessage ''m''),
               DoOff ''f'' 2, DoCount ''g'', DoCountAll] :: 64 word action list"
  obtain e' tr where r: "exec 1 0 ?ops (NewZagro [], []) = Some (e', tr)" "events e' = fmempty"
    by (simp add: ev_simps fmdrop_fmupd)
  from r no_empty_reachable[of 1 ?ops "[]" e' tr] show ?thesis by simp
qed

subsection \<open>The limit on the listeners of an event\<close>

text \<open>
  C2. With a limit \<open>K > 0\<close>, \<^verbatim>\<open>On\<close> (and \<^verbatim>\<open>Once\<close>) fails exactly when the event has
  \<open>K\<close> listeners or more; it then returns the error and the emitter as it was, so the
  callback is not added. A registration on another event changes neither the listeners
  of this one nor whether a registration on it fails. From an event without listeners,
  \<open>K\<close> registrations succeed and the next one fails, while registrations on the other
  events go as they would have gone before; and once \<^verbatim>\<open>Off\<close> has removed a listener of
  an event that had at most \<open>K\<close>, a registration succeeds. With the limit 0 no
  registration fails.
\<close>

theorem On_limit:
  "(0 < sint (maxListeners e) \<longrightarrow>
      ((snd (fst (On e event cb)) \<noteq> None) = (sint (maxListeners e) \<le> int (fst (Count e event))))
    \<and> ((snd (fst (Once e event u)) \<noteq> None) = (sint (maxListeners e) \<le> int (fst (Count e event)))))
   \<and> (snd (fst (On e event cb)) \<noteq> None \<longrightarrow>
        On e event cb = ((0, Some (errorString (''max listeners exceeded for event: '' @ event))), e))
   \<and> (snd (fst (Once e event u)) \<noteq> None \<longrightarrow>
        Once e event u = ((0, Some (errorString (''max listeners exceeded for event: '' @ event))), e))
   \<and> (snd (fst (On e event cb)) = None \<longrightarrow>
        listeners_of (snd (On e event cb)) event
          = listeners_of e event @ [\<lparr>id_l = nextID e + 1, callback = cb\<rparr>])
   \<and> (ev \<noteq> event \<longrightarrow>
        fmlookup (events (snd (On e event cb))) ev = fmlookup (events e) ev
        \<and> snd (fst (On (snd (On e event cb)) ev cb')) = snd (fst (On e ev cb')))
   \<and> (0 < sint (maxListeners e) \<and> listeners_of e event = []
        \<and> int (length rs) = sint (maxListeners e) \<longrightarrow>
        (\<exists>e1. exec fuel d (map (reg_action event) rs) (e, tr)
                 = Some (e1, tr @ map (\<lambda>l. Returned (id_l l) None) (registered event (nextID e) rs))
             \<and> int (fst (Count e1 event)) = sint (maxListeners e)
             \<and> snd (fst (On e1 event cb)) \<noteq> None
             \<and> snd (fst (Once e1 event u)) \<noteq> None
             \<and> (ev \<noteq> event \<longrightarrow> snd (fst (On e1 ev cb')) = snd (fst (On e ev cb')))))
   \<and> (0 < sint (maxListeners e) \<and> int (fst (Count e event)) \<le> sint (maxListeners e)
        \<and> i \<in> id_l ` set (listeners_of e event) \<longrightarrow>
        snd (fst (On (Off e event i) event cb)) = None)
   \<and> (maxListeners e = 0 \<longrightarrow>
        snd (fst (On e event cb)) = None \<and> snd (fst (Once e event u)) = None)"
proof -
  have a: "0 < sint (maxListeners e) \<longrightarrow>
      ((snd (fst (On e event cb)) \<noteq> None) = (sint (maxListeners e) \<le> int (fst (Count e event))))
    \<and> ((snd (fst (Once e event u)) \<noteq> None) = (sint (maxListeners e) \<le> int (fst (Count e event))))"
    unfolding Once_as_On Count_fst
    using On_fails_iff[of e event cb]
      On_fails_iff[of e event "reg_callback event (nextID e + 1) (True, u)"]
    by blast
  have b: "snd (fst (On e event cb)) \<noteq> None \<longrightarrow>
        On e event cb = ((0, Some (errorString (''max listeners exceeded for event: '' @ event))), e)"
    using On_fails_result[of e event cb] by blast
  have c: "snd (fst (Once e event u)) \<noteq> None \<longrightarrow>
        Once e event u = ((0, Some (errorString (''max listeners exceeded for event: '' @ event))), e)"
    using On_fails_result[of e event "reg_callback event (nextID e + 1) (True, u)"]
    by (simp add: Once_as_On)
  have d: "snd (fst (On e event cb)) = None \<longrightarrow>
        listeners_of (snd (On e event cb)) event
          = listeners_of e event @ [\<lparr>id_l = nextID e + 1, callback = cb\<rparr>]"
    using On_success[of e event cb] by blast
  have f: "ev \<noteq> event \<longrightarrow>
        fmlookup (events (snd (On e event cb))) ev = fmlookup (events e) ev
        \<and> snd (fst (On (snd (On e event cb)) ev cb')) = snd (fst (On e ev cb'))"
    by (simp add: On_def Let_def listeners_of_def)
  have g: "0 < sint (maxListeners e) \<and> listeners_of e event = []
        \<and> int (length rs) = sint (maxListeners e) \<longrightarrow>
        (\<exists>e1. exec fuel d (map (reg_action event) rs) (e, tr)
                 = Some (e1, tr @ map (\<lambda>l. Returned (id_l l) None) (registered event (nextID e) rs))
             \<and> int (fst (Count e1 event)) = sint (maxListeners e)
             \<and> snd (fst (On e1 event cb)) \<noteq> None
             \<and> snd (fst (Once e1 event u)) \<noteq> None
             \<and> (ev \<noteq> event \<longrightarrow> snd (fst (On e1 ev cb')) = snd (fst (On e ev cb'))))"
  proof
    assume h: "0 < sint (maxListeners e) \<and> listeners_of e event = []
        \<and> int (length rs) = sint (maxListeners e)"
    then have "\<not> 0 < sint (maxListeners e)
           \<or> int (length (listeners_of e event) + length rs) \<le> sint (maxListeners e)" by simp
    from register_run[OF this, of fuel d tr] obtain e1 where e1:
      "exec fuel d (map (reg_action event) rs) (e, tr)
                 = Some (e1, tr @ map (\<lambda>l. Returned (id_l l) None) (registered event (nextID e) rs))"
      "listeners_of e1 event = listeners_of e event @ registered event (nextID e) rs"
      "\<forall>ev. ev \<noteq> event \<longrightarrow> fmlookup (events e1) ev = fmlookup (events e) ev"
      "maxListeners e1 = maxListeners e"
      by blast
    have len: "length (registered event n rs) = length rs" for n
      by (induction rs arbitrary: n) auto
    from e1 h len have cnt: "int (fst (Count e1 event)) = sint (maxListeners e)"
      by (simp add: Count_fst)
    from cnt h e1 have "snd (fst (On e1 event cb)) \<noteq> None" "snd (fst (Once e1 event u)) \<noteq> None"
      unfolding Once_as_On
      using On_fails_iff[of e1 event cb]
        On_fails_iff[of e1 event "reg_callback event (nextID e1 + 1) (True, u)"]
      by (auto simp: Count_fst)
    moreover from e1 have "ev \<noteq> event \<longrightarrow> snd (fst (On e1 ev cb')) = snd (fst (On e ev cb'))"
      by (simp add: On_def Let_def listeners_of_def)
    ultimately show "\<exists>e1. exec fuel d (map (reg_action event) rs) (e, tr)
                 = Some (e1, tr @ map (\<lambda>l. Returned (id_l l) None) (registered event (nextID e) rs))
             \<and> int (fst (Count e1 event)) = sint (maxListeners e)
             \<and> snd (fst (On e1 event cb)) \<noteq> None
             \<and> snd (fst (Once e1 event u)) \<noteq> None
             \<and> (ev \<noteq> event \<longrightarrow> snd (fst (On e1 ev cb')) = snd (fst (On e ev cb')))"
      using e1(1) cnt by blast
  qed
  have k: "0 < sint (maxListeners e) \<and> int (fst (Count e event)) \<le> sint (maxListeners e)
        \<and> i \<in> id_l ` set (listeners_of e event) \<longrightarrow>
        snd (fst (On (Off e event i) event cb)) = None"
  proof
    assume h: "0 < sint (maxListeners e) \<and> int (fst (Count e event)) \<le> sint (maxListeners e)
        \<and> i \<in> id_l ` set (listeners_of e event)"
    then obtain r where r: "off_loop i [] (listeners_of e event) = Some r"
      using off_loop_None[of i "[]" "listeners_of e event"]
      by (cases "off_loop i [] (listeners_of e event)") auto
    then have "Suc (length r) = length (listeners_of e event)"
      by (auto simp: off_loop_Some)
    moreover from r have "listeners_of (Off e event i) event = r" by (simp add: listeners_of_Off)
    ultimately show "snd (fst (On (Off e event i) event cb)) = None"
      using h On_fails_iff[of "Off e event i" event cb] by (auto simp: Count_fst)
  qed
  have m: "maxListeners e = 0 \<longrightarrow>
        snd (fst (On e event cb)) = None \<and> snd (fst (Once e event u)) = None"
    by (simp add: Once_as_On On_def Let_def)
  from a b c d f g k m show ?thesis by blast
qed

theorem On_limit_witness:
  "(\<exists>e1. exec 0 0 [DoOn ''e'' (User 1 []), DoOnce ''e'' (User 2 [])] (limit_two, [])
            = Some (e1, [Returned 1 None, Returned 2 None])
      \<and> fst (Count e1 ''e'') = 2
      \<and> fst (On e1 ''e'' (Plain (User 3 []))) = (0, Some (errorString ''max listeners exceeded for event: e''))
      \<and> snd (On e1 ''e'' (Plain (User 3 []))) = e1
      \<and> snd (fst (On e1 ''f'' (Plain (User 3 [])))) = None
      \<and> snd (fst (On (Off e1 ''e'' 1) ''e'' (Plain (User 3 [])))) = None)
   \<and> snd (fst (On (NewZagro [] :: 64 word Zagro) ''e'' (Plain (User 1 [])))) = None"
  using On_limit[of limit_two "''e''" "Plain (User 3 [])" "User 3 []" "''f''" "Plain (User 3 [])"
          "[(False, User 1 []), (True, User 2 [])]" 0 0 "[]" 1]
    On_limit[of "NewZagro [] :: 64 word Zagro" "''e''" "Plain (User 1 [])"]
  by (simp add: ev_simps)

subsection \<open>Emit\<close>



text \<open>
  C4. Registrations \<open>rs\<close> on one event, made one after the other below the limit, all
  succeed: the event then holds the callbacks it held, followed by the new ones in
  the order of the calls. An \<^verbatim>\<open>Emit\<close> on this emitter is these callbacks called in
  that order, each from where the one before left the emitter, and returns exactly when
  each of them does; every \<^verbatim>\<open>Emit\<close> that returns has invoked the callbacks in exactly
  that order; and where no callback of the emitter or of the registrations emits, every
  \<^verbatim>\<open>Emit\<close> with fuel above 0 returns and has invoked them in that order.
\<close>

theorem Emit_in_registration_order:
  assumes "\<not> 0 < sint (maxListeners e)
           \<or> int (length (listeners_of e event) + length rs) \<le> sint (maxListeners e)"
  shows "\<exists>e1. exec fuel d (map (reg_action event) rs) (e, tr)
                 = Some (e1, tr @ map (\<lambda>l. Returned (id_l l) None) (registered event (nextID e) rs))
          \<and> snapshot e1 event = snapshot e event @ map callback (registered event (nextID e) rs)
          \<and> map label_of (snapshot e1 event)
               = map label_of (snapshot e event) @ map (\<lambda>r. label_of (Plain (snd r))) rs
          \<and> (\<forall>fuel' d' msg tr1 e2 tr2.
                Emit fuel' d' event msg (e1, tr1) = Some (e2, tr2) \<longrightarrow>
                (\<exists>new. tr2 = tr1 @ new
                   \<and> fired_at d' new
                       = map (\<lambda>cb. (label_of cb, msg)) (snapshot e event)
                         @ map (\<lambda>r. (label_of (Plain (snd r)), msg)) rs))
          \<and> (\<forall>fuel' d' msg tr1.
                Emit (Suc fuel') d' event msg (e1, tr1)
                  = fold (\<lambda>cb r. Option.bind r (invoke fuel' d' cb msg))
                      (snapshot e event @ map callback (registered event (nextID e) rs))
                      (Some (e1, tr1)))
          \<and> (quiet e \<and> list_all (\<lambda>r. emit_free_ucb (snd r)) rs \<longrightarrow>
                (\<forall>fuel' d' msg tr1. \<exists>e2 new.
                   Emit (Suc fuel') d' event msg (e1, tr1) = Some (e2, tr1 @ new)
                   \<and> fired_at d' new
                       = map (\<lambda>cb. (label_of cb, msg)) (snapshot e event)
                         @ map (\<lambda>r. (label_of (Plain (snd r)), msg)) rs))"
proof -
  from register_run[OF assms, of fuel d tr] obtain e1 where e1:
    "exec fuel d (map (reg_action event) rs) (e, tr)
       = Some (e1, tr @ map (\<lambda>l. Returned (id_l l) None) (registered event (nextID e) rs))"
    "listeners_of e1 event = listeners_of e event @ registered event (nextID e) rs"
    "\<forall>ev. ev \<noteq> event \<longrightarrow> fmlookup (events e1) ev = fmlookup (events e) ev"
    by blast
  have sn: "snapshot e1 event = snapshot e event @ map callback (registered event (nextID e) rs)"
    by (simp add: snapshot_def e1(2))
  have lb: "map label_of (snapshot e1 event)
               = map label_of (snapshot e event) @ map (\<lambda>r. label_of (Plain (snd r))) rs"
    using label_of_registered[of "\<lambda>x. x" event "nextID e" rs] by (simp add: sn comp_def)
  have em: "\<exists>new. tr2 = tr1 @ new
                   \<and> fired_at d' new
                       = map (\<lambda>cb. (label_of cb, msg)) (snapshot e event)
                         @ map (\<lambda>r. (label_of (Plain (snd r)), msg)) rs"
    if "Emit fuel' d' event msg (e1, tr1) = Some (e2, tr2)" for fuel' d' msg tr1 e2 tr2
  proof -
    from run_fired_at(6)[OF that] obtain new where
      "tr2 = tr1 @ new" "fired_at d' new = map (\<lambda>cb. (label_of cb, msg)) (snapshot e1 event)"
      by auto
    then show ?thesis
      using label_of_registered[of "\<lambda>x. (x, msg)" event "nextID e" rs]
      by (auto simp: sn comp_def)
  qed
  have fo: "Emit (Suc fuel') d' event msg (e1, tr1)
                  = fold (\<lambda>cb r. Option.bind r (invoke fuel' d' cb msg))
                      (snapshot e event @ map callback (registered event (nextID e) rs))
                      (Some (e1, tr1))" for fuel' d' msg tr1
    by (simp add: run_callbacks_fold sn)
  have qu: "\<exists>e2 new. Emit (Suc fuel') d' event msg (e1, tr1) = Some (e2, tr1 @ new)
                   \<and> fired_at d' new
                       = map (\<lambda>cb. (label_of cb, msg)) (snapshot e event)
                         @ map (\<lambda>r. (label_of (Plain (snd r)), msg)) rs"
    if q: "quiet e \<and> list_all (\<lambda>r. emit_free_ucb (snd r)) rs" for fuel' d' msg tr1
  proof -
    from q e1(2,3) have "quiet e1" by (intro quiet_registered[of e rs e1 event "nextID e"]) auto
    from Emit_quiet[OF this, of fuel' d' event msg tr1] obtain e2 tr2 where
      r: "Emit (Suc fuel') d' event msg (e1, tr1) = Some (e2, tr2)" by blast
    from em[OF r] r show ?thesis by blast
  qed
  from e1(1) sn lb em fo qu show ?thesis by blast
qed

theorem Emit_in_registration_order_witness:
  "\<exists>e1 e2 tr2.
     exec 0 0 [DoOn ''e'' (User 11 []), DoOnce ''e'' (User 12 []), DoOn ''e'' (User 13 [])]
       (NewZagro [] :: 64 word Zagro, [])
       = Some (e1, [Returned 1 None, Returned 2 None, Returned 3 None])
     \<and> snapshot e1 ''e'' = [Plain (User 11 []), Wrapper ''e'' 2 (User 12 []), Plain (User 13 [])]
     \<and> Emit 1 0 ''e'' (ZagroMessage ''m'') (e1, []) = Some (e2, tr2)
     \<and> fired_at 0 tr2 = [(11, ZagroMessage ''m''), (12, ZagroMessage ''m''), (13, ZagroMessage ''m'')]"
proof -
  let ?rs = "[(False, User 11 []), (True, User 12 []), (False, User 13 [])] :: (bool \<times> 64 word ucb) list"
  let ?e = "NewZagro [] :: 64 word Zagro"
  have lim: "\<not> 0 < sint (maxListeners ?e)
           \<or> int (length (listeners_of ?e ''e'') + length ?rs) \<le> sint (maxListeners ?e)"
    by (simp add: ev_simps)
  have q: "quiet ?e \<and> list_all (\<lambda>r. emit_free_ucb (snd r)) ?rs"
    by (simp add: quiet_def ev_simps)
  from Emit_in_registration_order[OF lim, of 0 0 "[]"] q obtain e1 where e1:
    "exec 0 0 (map (reg_action ''e'') ?rs) (?e, [])
       = Some (e1, [] @ map (\<lambda>l. Returned (id_l l) None) (registered ''e'' (nextID ?e) ?rs))"
    "snapshot e1 ''e'' = snapshot ?e ''e'' @ map callback (registered ''e'' (nextID ?e) ?rs)"
    "\<forall>fuel' d' msg tr1. \<exists>e2 new.
        Emit (Suc fuel') d' ''e'' msg (e1, tr1) = Some (e2, tr1 @ new)
        \<and> fired_at d' new
            = map (\<lambda>cb. (label_of cb, msg)) (snapshot ?e ''e'')
              @ map (\<lambda>r. (label_of (Plain (snd r)), msg)) ?rs"
    by blast
  from e1(3) obtain e2 new where e2:
    "Emit (Suc 0) 0 ''e'' (ZagroMessage ''m'') (e1, []) = Some (e2, [] @ new)"
    "fired_at 0 new
       = map (\<lambda>cb. (label_of cb, ZagroMessage ''m'')) (snapshot ?e ''e'')
         @ map (\<lambda>r. (label_of (Plain (snd r)), ZagroMessage ''m'')) ?rs"
    by blast
  have a: "exec 0 0 [DoOn ''e'' (User 11 []), DoOnce ''e'' (User 12 []), DoOn ''e'' (User 13 [])]
       (?e, []) = Some (e1, [Returned 1 None, Returned 2 None, Returned 3 None])"
    using e1(1) by (simp add: reg_action_def reg_callback_def NewZagro_def)
  have b: "snapshot e1 ''e'' = [Plain (User 11 []), Wrapper ''e'' 2 (User 12 []), Plain (User 13 [])]"
    using e1(2) by (simp add: reg_callback_def NewZagro_def snapshot_def listeners_of_def)
  have c: "Emit 1 0 ''e'' (ZagroMessage ''m'') (e1, []) = Some (e2, new)"
    using e2(1) by simp
  have f: "fired_at 0 new = [(11, ZagroMessage ''m''), (12, ZagroMessage ''m''), (13, ZagroMessage ''m'')]"
    using e2(2) by (simp add: NewZagro_def snapshot_def listeners_of_def)
  from a b c f show ?thesis by blast
qed

subsection \<open>Listener ids\<close>

text \<open>
  C5, as the code has it. From \<^verbatim>\<open>NewZagro\<close>, through any calls of the methods and
  whatever the callbacks do, the \<open>k\<close>-th successful registration (by the caller or by
  a callback) returns the id \<open>k\<close>, as a word. So as long as fewer than \<open>2 ^ w\<close>
  registrations have succeeded, \<open>w\<close> the width of \<^verbatim>\<open>int\<close>, the ids returned are
  pairwise distinct and none is 0, whether the listeners were removed or not.
\<close>

theorem ids_unique_until_wrap:
  fixes e' :: "('w::len) word Zagro"
  assumes "exec fuel 0 ops (NewZagro opts, []) = Some (e', tr)"
  shows "minted tr = map of_nat [1..<Suc (length (minted tr))]
         \<and> (length (minted tr) < 2 ^ LENGTH('w) \<longrightarrow> distinct (minted tr) \<and> 0 \<notin> set (minted tr))"
proof -
  from run_from_new[OF assms] obtain n where n: "minted tr = ids_from 0 n" by blast
  then have l: "length (minted tr) = n" by simp
  have "minted tr = map of_nat [1..<Suc (length (minted tr))]"
    unfolding l unfolding n ids_from_eq by simp
  moreover have "length (minted tr) < 2 ^ LENGTH('w) \<longrightarrow> distinct (minted tr) \<and> 0 \<notin> set (minted tr)"
    unfolding l unfolding n using distinct_ids_from[of n "0 :: 'w word"] zero_notin_ids_from[of n]
    by auto
  ultimately show ?thesis by blast
qed

theorem ids_unique_until_wrap_witness:
  "\<exists>e' tr. exec 1 0 [DoOn ''e'' (User 1 []), DoOnce ''e'' (User 2 [DoOn ''f'' (User 3 [])]),
                      DoEmit ''e'' (ZagroMessage ''m''), DoOff ''e'' 1, DoOn ''e'' (User 4 [])]
               (NewZagro [] :: 64 word Zagro, []) = Some (e', tr)
     \<and> minted tr = [1, 2, 3, 4] \<and> distinct (minted tr) \<and> 0 \<notin> set (minted tr)
     \<and> map id_l (listeners_of e' ''e'') = [4]"
proof -
  let ?ops = "[DoOn ''e'' (User 1 []), DoOnce ''e'' (User 2 [DoOn ''f'' (User 3 [])]),
                      DoEmit ''e'' (ZagroMessage ''m''), DoOff ''e'' 1, DoOn ''e'' (User 4 [])] :: 64 word action list"
  obtain e' tr where r: "exec 1 0 ?ops (NewZagro [], []) = Some (e', tr)"
    "minted tr = [1, 2, 3, 4]" "map id_l (listeners_of e' ''e'') = [4]"
    by (simp add: ev_simps)
  have len: "length (minted tr) < 2 ^ LENGTH(64)" by (simp add: r(2))
  from r len ids_unique_until_wrap[OF r(1)] show ?thesis by auto
qed

text \<open>
  C5 as stated fails. A caller registers a listener and removes it, \<open>2 ^ w + 1\<close> times:
  every registration succeeds, and the last one returns the id of the first, on 32 bits
  and on 64 bits.
\<close>

theorem ids_reused_after_wrap:
  "(\<exists>e' tr. exec 0 0 (concat (replicate (2 ^ LENGTH(32) + 1) [DoOn ''e'' (User 1 []), DoRemoveAll ''e'']))
                (NewZagro [] :: 32 word Zagro, []) = Some (e', tr)
       \<and> \<not> distinct (minted tr))
   \<and> (\<exists>e' tr. exec 0 0 (concat (replicate (2 ^ LENGTH(64) + 1) [DoOn ''e'' (User 1 []), DoRemoveAll ''e'']))
                (NewZagro [] :: 64 word Zagro, []) = Some (e', tr)
       \<and> \<not> distinct (minted tr))"
  by (rule conjI[OF wrap_not_distinct[where ?'w = 32] wrap_not_distinct[where ?'w = 64]])

text \<open>
  C9, as the code has it. A registration that fails returns the id 0 and the emitter as
  it was, map and counter. In a run from \<^verbatim>\<open>NewZagro\<close> every failed registration
  returned 0; while fewer than \<open>2 ^ (w - 1)\<close> registrations have succeeded every id
  returned with success is at least 1; and while fewer than \<open>2 ^ w\<close> have, none is 0 and
  no listener of the emitter has the id 0.
\<close>

theorem On_failure_atomic:
  fixes e e' :: "('w::len) word Zagro"
  shows "(snd (fst (On e event cb)) \<noteq> None \<longrightarrow>
            fst (fst (On e event cb)) = 0 \<and> snd (On e event cb) = e)
   \<and> (snd (fst (Once e event u)) \<noteq> None \<longrightarrow>
            fst (fst (Once e event u)) = 0 \<and> snd (Once e event u) = e)
   \<and> (exec fuel 0 ops (NewZagro opts, []) = Some (e', tr) \<longrightarrow>
        (\<forall>i err. Returned i (Some err) \<in> set tr \<longrightarrow> i = 0)
        \<and> (length (minted tr) < 2 ^ (LENGTH('w) - 1) \<longrightarrow> (\<forall>i \<in> set (minted tr). 1 \<le> sint i))
        \<and> (length (minted tr) < 2 ^ LENGTH('w) \<longrightarrow>
              0 \<notin> set (minted tr) \<and> (\<forall>ev. 0 \<notin> id_l ` set (listeners_of e' ev))))"
proof -
  have a: "snd (fst (On e event cb)) \<noteq> None \<longrightarrow>
            fst (fst (On e event cb)) = 0 \<and> snd (On e event cb) = e"
    using On_fails_result[of e event cb] by auto
  have b: "snd (fst (Once e event u)) \<noteq> None \<longrightarrow>
            fst (fst (Once e event u)) = 0 \<and> snd (Once e event u) = e"
    using On_fails_result[of e event "reg_callback event (nextID e + 1) (True, u)"]
    by (auto simp: Once_as_On)
  have c: "(\<forall>i err. Returned i (Some err) \<in> set tr \<longrightarrow> i = 0)
        \<and> (length (minted tr) < 2 ^ (LENGTH('w) - 1) \<longrightarrow> (\<forall>i \<in> set (minted tr). 1 \<le> sint i))
        \<and> (length (minted tr) < 2 ^ LENGTH('w) \<longrightarrow>
              0 \<notin> set (minted tr) \<and> (\<forall>ev. 0 \<notin> id_l ` set (listeners_of e' ev)))"
    if r: "exec fuel 0 ops (NewZagro opts, []) = Some (e', tr)"
  proof -
    from run_from_new[OF r] obtain n where n: "minted tr = ids_from 0 n"
      "\<forall>i err. Returned i (Some err) \<in> set tr \<longrightarrow> i = 0"
      "\<forall>ev. id_l ` set (listeners_of e' ev) \<subseteq> set (minted tr)"
      by blast
    then have l: "length (minted tr) = n" by simp
    have p: "length (minted tr) < 2 ^ (LENGTH('w) - 1) \<longrightarrow> (\<forall>i \<in> set (minted tr). 1 \<le> sint i)"
      unfolding l unfolding n(1) using positive_ids_from[of n] by blast
    have z: "length (minted tr) < 2 ^ LENGTH('w) \<longrightarrow> 0 \<notin> set (minted tr)"
      unfolding l unfolding n(1) using zero_notin_ids_from[of n] by blast
    from n(3) have "0 \<notin> set (minted tr) \<Longrightarrow> \<forall>ev. 0 \<notin> id_l ` set (listeners_of e' ev)"
      by blast
    with n(2) p z show ?thesis by blast
  qed
  from a b c show ?thesis by blast
qed

theorem On_failure_atomic_witness:
  "\<exists>e' tr. exec 0 0 [DoOn ''e'' (User 1 []), DoOnce ''e'' (User 2 []), DoOn ''e'' (User 3 [])]
               (limit_two, []) = Some (e', tr)
     \<and> tr = [Returned 1 None, Returned 2 None,
             Returned 0 (Some (errorString ''max listeners exceeded for event: e''))]
     \<and> snd (On e' ''e'' (Plain (User 3 []))) = e'
     \<and> snd (Once e' ''e'' (User 3 [])) = e'
     \<and> 0 \<notin> set (minted tr) \<and> 1 \<le> sint (1 :: 64 word) \<and> 1 \<le> sint (2 :: 64 word)
     \<and> 0 \<notin> id_l ` set (listeners_of e' ''e'')"
proof -
  let ?ops = "[DoOn ''e'' (User 1 []), DoOnce ''e'' (User 2 []), DoOn ''e'' (User 3 [])] :: 64 word action list"
  obtain e' tr where r: "exec 0 0 ?ops (NewZagro [\<lparr>MaxListeners = 2\<rparr>], []) = Some (e', tr)"
    "tr = [Returned 1 None, Returned 2 None,
             Returned 0 (Some (errorString ''max listeners exceeded for event: e''))]"
    "snd (fst (On e' ''e'' (Plain (User 3 [])))) \<noteq> None"
    "snd (fst (Once e' ''e'' (User 3 []))) \<noteq> None"
    by (simp add: ev_simps)
  have len: "length (minted tr) < 2 ^ (LENGTH(64) - 1)" "length (minted tr) < 2 ^ LENGTH(64)"
    by (simp_all add: r(2))
  from r len
    On_failure_atomic[of e' "''e''" "Plain (User 3 [])" "User 3 []" 0 ?ops "[\<lparr>MaxListeners = 2\<rparr>]" e' tr]
  show ?thesis
    by (simp add: limit_two_def)
qed

text \<open>
  C9 as stated fails. A caller registers a listener and removes it, \<open>2 ^ w\<close> times: every
  registration succeeds, and the last one returns the id 0.
\<close>

theorem zero_id_after_wrap:
  "(\<exists>e' tr. exec 0 0 (concat (replicate (2 ^ LENGTH(32)) [DoOn ''e'' (User 1 []), DoRemoveAll ''e'']))
                (NewZagro [] :: 32 word Zagro, []) = Some (e', tr)
       \<and> last (minted tr) = 0 \<and> length (minted tr) = 2 ^ LENGTH(32))
   \<and> (\<exists>e' tr. exec 0 0 (concat (replicate (2 ^ LENGTH(64)) [DoOn ''e'' (User 1 []), DoRemoveAll ''e'']))
                (NewZagro [] :: 64 word Zagro, []) = Some (e', tr)
       \<and> last (minted tr) = 0 \<and> length (minted tr) = 2 ^ LENGTH(64))"
  by (rule conjI[OF wrap_zero[where ?'w = 32] wrap_zero[where ?'w = 64]])

subsection \<open>Once\<close>

text \<open>
  What \<^verbatim>\<open>Once\<close> stores: when the registration succeeds, the last listener of the event
  carries the id that \<^verbatim>\<open>Once\<close> returns, and its callback is the wrapper that removes
  this very id.
\<close>

lemma Once_stores_returned_id:
  assumes "snd (fst (Once e event cb)) = None"
  shows "listeners_of (snd (Once e event cb)) event
           = listeners_of e event
             @ [\<lparr>id_l = fst (fst (Once e event cb)),
                 callback = Wrapper event (fst (fst (Once e event cb))) cb\<rparr>]"
  using assms On_success[of e event "Wrapper event (nextID e + 1) cb"]
  by (simp add: Once_def)

text \<open>
  Runs of calm callbacks: they return, add to the observations only that the callbacks
  ran, and keep an emitter \<open>pending\<close> or \<open>gone\<close>.
\<close>

lemma fired_append [simp]: "fired lbl (xs @ ys) = fired lbl xs + fired lbl ys"
  by (induction lbl xs rule: fired.induct) auto

lemma off_loop_sub:
  assumes "off_loop i pre ls = Some r"
  shows "length (filter P r) \<le> length (filter P (pre @ ls))" and "set r \<subseteq> set (pre @ ls)"
  using assms by (auto simp: off_loop_Some)

lemma filter_listeners_Off:
  "length (filter P (listeners_of (Off e event i) ev)) \<le> length (filter P (listeners_of e ev))"
  using off_loop_sub(1)[of i "[]" "listeners_of e event" _ P]
  by (auto simp: listeners_of_Off split: option.splits)

lemma calm_Off: "calm e \<Longrightarrow> calm (Off e event i)"
  using set_listeners_of_Off[of e event i]
  by (auto simp: calm_def snapshot_def list_all_iff)

lemma listeners_of_RemoveAll:
  "listeners_of (RemoveAll e event) ev = (if ev = event then [] else listeners_of e ev)"
  by (simp add: RemoveAll_def listeners_of_def)

lemma calm_RemoveAll: "calm e \<Longrightarrow> calm (RemoveAll e event)"
  by (auto simp: calm_def snapshot_def list_all_iff listeners_of_RemoveAll)

lemma pending_Off: "pending event i lbl e \<Longrightarrow> pending event i lbl (Off e ev j)"
proof -
  assume p: "pending event i lbl e"
  have sub: "set (listeners_of (Off e ev j) ev') \<subseteq> set (listeners_of e ev')" for ev'
    by (rule set_listeners_of_Off)
  have "length (filter (\<lambda>l. id_l l = i) (listeners_of (Off e ev j) event)) \<le> 1"
    using filter_listeners_Off[of "\<lambda>l. id_l l = i" e ev j event] p
    by (simp add: pending_def)
  with p sub show ?thesis
    unfolding pending_def by (meson subsetD)
qed

lemma pending_RemoveAll: "pending event i lbl e \<Longrightarrow> pending event i lbl (RemoveAll e ev)"
  by (auto simp: pending_def listeners_of_RemoveAll)

lemma gone_Off: "gone event lbl e \<Longrightarrow> gone event lbl (Off e ev j)"
  using set_listeners_of_Off[of e ev j event]
  by (auto simp: gone_def calm_Off snapshot_def)

lemma gone_RemoveAll: "gone event lbl e \<Longrightarrow> gone event lbl (RemoveAll e ev)"
  by (auto simp: gone_def calm_RemoveAll snapshot_def listeners_of_RemoveAll)

text \<open>The wrapper's own \<^verbatim>\<open>Off\<close> ends the pending state.\<close>

lemma pending_Off_gone:
  assumes "pending event i lbl e"
  shows "gone event lbl (Off e event i)"
proof -
  let ?ls = "listeners_of e event"
  have none: "i \<notin> id_l ` set (listeners_of (Off e event i) event)"
  proof (cases "off_loop i [] ?ls")
    case None
    then have "i \<notin> id_l ` set ?ls" by (simp add: off_loop_None)
    with None show ?thesis by (simp add: listeners_of_Off)
  next
    case (Some r)
    then obtain xs l ys where d: "?ls = xs @ l # ys" "id_l l = i" "i \<notin> id_l ` set xs" "r = xs @ ys"
      by (auto simp: off_loop_Some)
    from assms d have "length (filter (\<lambda>l. id_l l = i) ys) = 0"
      by (simp add: pending_def)
    then have "i \<notin> id_l ` set ys"
      by (auto simp: filter_empty_conv)
    with d Some show ?thesis by (auto simp: listeners_of_Off)
  qed
  have "\<forall>l \<in> set (listeners_of (Off e event i) event). label_of (callback l) \<noteq> lbl"
  proof
    fix l assume l: "l \<in> set (listeners_of (Off e event i) event)"
    with set_listeners_of_Off[of e event i event] have "l \<in> set ?ls" by blast
    with assms have "label_of (callback l) = lbl \<longrightarrow> id_l l = i" by (simp add: pending_def)
    with none l show "label_of (callback l) \<noteq> lbl" by blast
  qed
  moreover have "calm (Off e event i)"
    unfolding calm_def snapshot_def list_all_iff
  proof (intro allI ballI)
    fix ev cb assume "cb \<in> set (map callback (listeners_of (Off e event i) ev))"
    then obtain l where l: "l \<in> set (listeners_of (Off e event i) ev)" "cb = callback l" by auto
    with set_listeners_of_Off[of e event i ev] have "l \<in> set (listeners_of e ev)" by blast
    with assms have "calm_cb (callback l) \<or> ev = event \<and> id_l l = i" by (simp add: pending_def)
    with none l show "calm_cb cb" by blast
  qed
  ultimately show ?thesis by (auto simp: gone_def snapshot_def)
qed

lemma perform_calm:
  assumes "calm_action a"
  shows "\<exists>e'. perform fuel d a (e, tr) = Some (e', tr)
           \<and> (pending event i lbl e \<longrightarrow> pending event i lbl e')
           \<and> (gone event lbl e \<longrightarrow> gone event lbl e')"
  using assms
  by (cases a) (auto simp: pending_Off pending_RemoveAll gone_Off gone_RemoveAll Count_def CountAll_def)

lemma exec_calm:
  assumes "list_all calm_action as"
  shows "\<exists>e'. exec fuel d as (e, tr) = Some (e', tr)
           \<and> (pending event i lbl e \<longrightarrow> pending event i lbl e')
           \<and> (gone event lbl e \<longrightarrow> gone event lbl e')"
  using assms
proof (induction as arbitrary: e)
  case Nil
  then show ?case by simp
next
  case (Cons a as)
  from Cons.prems perform_calm[of a fuel d e tr event i lbl] obtain e1 where
    p: "perform fuel d a (e, tr) = Some (e1, tr)"
       "pending event i lbl e \<longrightarrow> pending event i lbl e1"
       "gone event lbl e \<longrightarrow> gone event lbl e1" by auto
  from Cons.IH[of e1] Cons.prems obtain e' where
    q: "exec fuel d as (e1, tr) = Some (e', tr)"
       "pending event i lbl e1 \<longrightarrow> pending event i lbl e'"
       "gone event lbl e1 \<longrightarrow> gone event lbl e'" by auto
  from p q show ?case by auto
qed

lemma invoke_calm:
  assumes "calm_cb cb"
  shows "\<exists>e'. invoke fuel d cb msg (e, tr) = Some (e', tr @ [Fired d (label_of cb) msg])
           \<and> (pending event i lbl e \<longrightarrow> pending event i lbl e')
           \<and> (gone event lbl e \<longrightarrow> gone event lbl e')"
proof (cases cb)
  case (Plain u)
  obtain l body where u: "u = User l body" by (cases u)
  from assms Plain u have "list_all calm_action body" by simp
  from exec_calm[OF this, of fuel d e "tr @ [Fired d l msg]" event i lbl]
  show ?thesis by (simp add: Plain u)
next
  case (Wrapper ev j u)
  obtain l body where u: "u = User l body" by (cases u)
  from assms Wrapper u have "list_all calm_action body" by simp
  from exec_calm[OF this, of fuel d "Off e ev j" "tr @ [Fired d l msg]" event i lbl]
    pending_Off[of event i lbl e ev j] gone_Off[of event lbl e ev j]
  show ?thesis by (auto simp: Wrapper u)
qed

lemma run_callbacks_calm:
  assumes "list_all calm_cb cbs"
  shows "\<exists>e'. run_callbacks (Suc fuel) d cbs msg (e, tr)
                 = Some (e', tr @ map (\<lambda>cb. Fired d (label_of cb) msg) cbs)
           \<and> (pending event i lbl e \<longrightarrow> pending event i lbl e')
           \<and> (gone event lbl e \<longrightarrow> gone event lbl e')"
  using assms
proof (induction cbs arbitrary: e tr)
  case Nil
  then show ?case by simp
next
  case (Cons cb cbs)
  from Cons.prems invoke_calm[of cb fuel d msg e tr event i lbl] obtain e1 where
    p: "invoke fuel d cb msg (e, tr) = Some (e1, tr @ [Fired d (label_of cb) msg])"
       "pending event i lbl e \<longrightarrow> pending event i lbl e1"
       "gone event lbl e \<longrightarrow> gone event lbl e1" by auto
  from Cons.IH[of e1 "tr @ [Fired d (label_of cb) msg]"] Cons.prems obtain e' where
    q: "run_callbacks (Suc fuel) d cbs msg (e1, tr @ [Fired d (label_of cb) msg])
          = Some (e', (tr @ [Fired d (label_of cb) msg]) @ map (\<lambda>cb. Fired d (label_of cb) msg) cbs)"
       "pending event i lbl e1 \<longrightarrow> pending event i lbl e'"
       "gone event lbl e1 \<longrightarrow> gone event lbl e'" by auto
  from p q show ?case by auto
qed

lemma run_callbacks_append:
  "run_callbacks (Suc fuel) d (xs @ ys) msg w =
     (case run_callbacks (Suc fuel) d xs msg w of
        None \<Rightarrow> None
      | Some w' \<Rightarrow> run_callbacks (Suc fuel) d ys msg w')"
  by (induction xs arbitrary: w) (auto split: option.splits)

lemma fired_map_Fired:
  "fired lbl (map (\<lambda>cb. Fired d (label_of cb) msg) cbs) = length (filter (\<lambda>cb. label_of cb = lbl) cbs)"
  by (induction cbs) auto

lemma Emit_gone:
  assumes "gone event lbl e"
  shows "\<exists>e' new. Emit (Suc fuel) d event msg (e, tr) = Some (e', tr @ new)
           \<and> fired lbl new = 0 \<and> gone event lbl e'"
proof -
  from assms have c: "list_all calm_cb (snapshot e event)" by (simp add: gone_def calm_def)
  from run_callbacks_calm[OF c, of fuel d msg e tr event undefined lbl] assms obtain e' where
    r: "run_callbacks (Suc fuel) d (snapshot e event) msg (e, tr)
          = Some (e', tr @ map (\<lambda>cb. Fired d (label_of cb) msg) (snapshot e event))"
       "gone event lbl e'" by auto
  from assms have "fired lbl (map (\<lambda>cb. Fired d (label_of cb) msg) (snapshot e event)) = 0"
    by (auto simp: fired_map_Fired gone_def filter_empty_conv)
  with r show ?thesis by auto
qed

lemma Emits_gone:
  assumes "gone event lbl e"
  shows "\<exists>e' new. exec (Suc fuel) d (map (DoEmit event) msgs) (e, tr) = Some (e', tr @ new)
           \<and> fired lbl new = 0 \<and> gone event lbl e'"
  using assms
proof (induction msgs arbitrary: e tr)
  case Nil
  then show ?case by simp
next
  case (Cons m msgs)
  from Emit_gone[OF Cons.prems, of fuel "Suc d" m tr] obtain e1 n1 where
    p: "Emit (Suc fuel) (Suc d) event m (e, tr) = Some (e1, tr @ n1)" "fired lbl n1 = 0"
       "gone event lbl e1" by blast
  from Cons.IH[OF p(3), of "tr @ n1"] obtain e' n2 where
    q: "exec (Suc fuel) d (map (DoEmit event) msgs) (e1, tr @ n1) = Some (e', (tr @ n1) @ n2)"
       "fired lbl n2 = 0" "gone event lbl e'" by blast
  show ?case
    by (rule exI[of _ e'], rule exI[of _ "n1 @ n2"]) (use p q in simp)
qed


lemma exec_calm_or_emit:
  assumes "gone event lbl e" "list_all (calm_or_emit event) body"
  shows "\<exists>e' new. exec (Suc fuel) d body (e, tr) = Some (e', tr @ new)
           \<and> fired lbl new = 0 \<and> gone event lbl e'"
  using assms
proof (induction body arbitrary: e tr)
  case Nil
  then show ?case by simp
next
  case (Cons a body)
  have "\<exists>e1 n1. perform (Suc fuel) d a (e, tr) = Some (e1, tr @ n1)
           \<and> fired lbl n1 = 0 \<and> gone event lbl e1"
  proof (cases "calm_action a")
    case True
    from perform_calm[OF True, of "Suc fuel" d e tr event undefined lbl] Cons.prems(1)
    obtain e1 where "perform (Suc fuel) d a (e, tr) = Some (e1, tr)" "gone event lbl e1" by auto
    then show ?thesis by (intro exI[of _ e1] exI[of _ "[]"]) simp
  next
    case False
    with Cons.prems(2) obtain m where a: "a = DoEmit event m" by (cases a) auto
    from Emit_gone[OF Cons.prems(1), of fuel "Suc d" m tr] show ?thesis by (simp add: a)
  qed
  then obtain e1 n1 where p: "perform (Suc fuel) d a (e, tr) = Some (e1, tr @ n1)"
    "fired lbl n1 = 0" "gone event lbl e1" by blast
  from Cons.IH[OF p(3), of "tr @ n1"] Cons.prems(2) obtain e' n2 where
    q: "exec (Suc fuel) d body (e1, tr @ n1) = Some (e', (tr @ n1) @ n2)"
       "fired lbl n2 = 0" "gone event lbl e'" by auto
  show ?case
    by (rule exI[of _ e'], rule exI[of _ "n1 @ n2"]) (use p q in simp)
qed

text \<open>
  Where the callbacks of an emitter neither register nor emit, \<^verbatim>\<open>Once\<close> does what its
  name says. Let the emitter be calm, the label \<open>lbl\<close> be new on the event and the id that
  \<^verbatim>\<open>Once\<close> is about to return be new on the event too; the callback registered may
  itself emit the event. Then the first \<^verbatim>\<open>Emit\<close> on the event returns and has run the
  callback exactly once, and any further \<^verbatim>\<open>Emit\<close>s on the event return and never run
  it.
\<close>

lemma Once_fires_once_if_calm:
  assumes c: "calm e" "list_all (calm_or_emit event) body"
    and fresh: "lbl \<notin> label_of ` set (snapshot e event)"
               "nextID e + 1 \<notin> id_l ` set (listeners_of e event)"
    and ok: "snd (fst (Once e event (User lbl body))) = None"
  shows "\<exists>e1 new. Emit (Suc (Suc fuel)) d event msg (snd (Once e event (User lbl body)), tr)
                     = Some (e1, tr @ new)
           \<and> fired lbl new = 1
           \<and> (\<forall>fuel' d' msgs tr'. \<exists>e2 later.
                 exec (Suc fuel') d' (map (DoEmit event) msgs) (e1, tr') = Some (e2, tr' @ later)
                 \<and> fired lbl later = 0)"
proof -
  let ?i = "nextID e + 1"
  let ?W = "Wrapper event ?i (User lbl body)"
  let ?e0 = "snd (Once e event (User lbl body))"
  from ok have ok': "snd (fst (On e event ?W)) = None" by (simp add: Once_def)
  have ls: "listeners_of ?e0 ev =
      (if ev = event then listeners_of e event @ [\<lparr>id_l = ?i, callback = ?W\<rparr>] else listeners_of e ev)" for ev
    using ok' On_fails_iff[of e event ?W] by (auto simp: Once_def listeners_of_On)
  have sn: "snapshot ?e0 event = snapshot e event @ [?W]"
    by (simp add: snapshot_def ls)
  from fresh(2) have "\<forall>l \<in> set (listeners_of e event). id_l l \<noteq> ?i" by (metis imageI)
  then have "filter (\<lambda>l. id_l l = ?i) (listeners_of e event) = []"
    by (simp add: filter_empty_conv)
  moreover from fresh(1) have "\<forall>l \<in> set (listeners_of e event). label_of (callback l) \<noteq> lbl"
    by (auto simp: snapshot_def)
  moreover from c(1) have "\<forall>ev. \<forall>l \<in> set (listeners_of e ev). calm_cb (callback l)"
    by (auto simp: calm_def snapshot_def list_all_iff)
  ultimately have pend: "pending event ?i lbl ?e0"
    by (simp add: pending_def ls)
  from c(1) have pre: "list_all calm_cb (snapshot e event)" by (simp add: calm_def)
  from run_callbacks_calm[OF pre, of "Suc fuel" d msg ?e0 tr event ?i lbl] pend obtain ea where
    a: "run_callbacks (Suc (Suc fuel)) d (snapshot e event) msg (?e0, tr)
          = Some (ea, tr @ map (\<lambda>cb. Fired d (label_of cb) msg) (snapshot e event))"
       "pending event ?i lbl ea" by auto
  let ?pre = "map (\<lambda>cb. Fired d (label_of cb) msg) (snapshot e event)"
  from exec_calm_or_emit[OF pending_Off_gone[OF a(2)] c(2), of fuel d "tr @ ?pre @ [Fired d lbl msg]"]
  obtain e1 n where
    b: "exec (Suc fuel) d body (Off ea event ?i, tr @ ?pre @ [Fired d lbl msg])
          = Some (e1, (tr @ ?pre @ [Fired d lbl msg]) @ n)"
       "fired lbl n = 0" "gone event lbl e1" by blast
  have em: "Emit (Suc (Suc fuel)) d event msg (?e0, tr) = Some (e1, tr @ (?pre @ [Fired d lbl msg] @ n))"
    using b(1) by (simp add: sn run_callbacks_append a(1))
  have f0: "fired lbl ?pre = 0"
    using fresh(1) by (auto simp: fired_map_Fired filter_empty_conv)
  have f1: "fired lbl (?pre @ [Fired d lbl msg] @ n) = 1"
    by (simp add: f0 b(2))
  have later: "\<exists>e2 later. exec (Suc fuel') d' (map (DoEmit event) msgs) (e1, tr') = Some (e2, tr' @ later)
                 \<and> fired lbl later = 0" for fuel' d' msgs tr'
    using Emits_gone[OF b(3), of fuel' d' msgs tr'] by blast
  from em f1 later show ?thesis by blast
qed

text \<open>
  C1. A callback registered through \<^verbatim>\<open>Once\<close> is to run exactly once, however often its
  event is emitted. Three runs of the code, each from \<^verbatim>\<open>NewZagro\<close>. In the first (the
  one of the repository's test) the event is emitted twice and the callback runs once,
  on the first \<^verbatim>\<open>Emit\<close>. In the second the callback itself emits its event: the wrapper
  has removed the listener before, and the callback runs once. In the third two
  callbacks are registered through \<^verbatim>\<open>Once\<close> on one event and the first emits the
  event: the caller emits once, and the second callback runs twice, first inside the
  nested \<^verbatim>\<open>Emit\<close> and then again from the copy that the outer \<^verbatim>\<open>Emit\<close> had made.
\<close>

theorem Once_fires_twice:
  "exec 1 0 [DoOnce ''event2'' (User 1 []),
             DoEmit ''event2'' (ZagroMessage ''a''), DoEmit ''event2'' (ZagroMessage ''b'')]
     (NewZagro [] :: 64 word Zagro, [])
     = Some (\<lparr>events = fmempty, nextID = 1, maxListeners = 0\<rparr>,
             [Returned 1 None, Fired 1 1 (ZagroMessage ''a'')])
   \<and> exec 2 0 [DoOnce ''e'' (User 1 [DoEmit ''e'' (ZagroMessage ''inner'')]),
               DoEmit ''e'' (ZagroMessage ''outer''), DoEmit ''e'' (ZagroMessage ''later'')]
       (NewZagro [] :: 64 word Zagro, [])
     = Some (\<lparr>events = fmempty, nextID = 1, maxListeners = 0\<rparr>,
             [Returned 1 None, Fired 1 1 (ZagroMessage ''outer'')])
   \<and> exec 2 0 [DoOnce ''e'' (User 1 [DoEmit ''e'' (ZagroMessage ''inner'')]),
               DoOnce ''e'' (User 2 []),
               DoEmit ''e'' (ZagroMessage ''outer'')]
       (NewZagro [] :: 64 word Zagro, [])
     = Some (\<lparr>events = fmempty, nextID = 2, maxListeners = 0\<rparr>,
             [Returned 1 None, Returned 2 None,
              Fired 1 1 (ZagroMessage ''outer''),
              Fired 2 2 (ZagroMessage ''inner''),
              Fired 1 2 (ZagroMessage ''outer'')])
   \<and> fired 2 [Returned 1 None, Returned 2 None,
              Fired 1 1 (ZagroMessage ''outer''),
              Fired 2 2 (ZagroMessage ''inner''),
              Fired 1 2 (ZagroMessage ''outer'') :: 64 word obs] = 2"
  by (simp add: ev_simps fmdrop_fmupd numeral_2_eq_2)

end
